theory Spec2Isabelle
  imports Complex_Main "HOL-Library.Word" "HOL-Library.Multiset"
begin

unbundle bit_operations_syntax

section \<open>JavaScript strings and arrays\<close>

text \<open>
  A JavaScript string is a \<^typ>\<open>string\<close>: one \<^typ>\<open>char\<close> stands for one UTF-16 code
  unit, so \<open>length\<close> is \<open>.length\<close>. Only code units below 256 are representable; the
  sources read registry names, domain names and capture fields, which are ASCII in practice.
  \<open>Boolean(s)\<close> of a string is \<open>s \<noteq> []\<close>.
\<close>

definition isWhiteSpace :: "char \<Rightarrow> bool" where
  \<comment> \<open>the code units that \<open>String.prototype.trim\<close> strips (WhiteSpace and LineTerminator)\<close>
  "isWhiteSpace c =
     (c \<in> {CHR 0x09, CHR 0x0A, CHR 0x0B, CHR 0x0C, CHR 0x0D, CHR 0x20, CHR 0xA0})"

definition trim :: "string \<Rightarrow> string" where
  "trim s = rev (dropWhile isWhiteSpace (rev (dropWhile isWhiteSpace s)))"

fun splitAcc :: "char \<Rightarrow> string \<Rightarrow> string \<Rightarrow> string list" where
  "splitAcc sep cur [] = [rev cur]"
| "splitAcc sep cur (c # cs) =
     (if c = sep then rev cur # splitAcc sep [] cs else splitAcc sep (c # cur) cs)"

definition splitOn :: "string \<Rightarrow> char \<Rightarrow> string list" where
  \<comment> \<open>\<open>s.split(sep)\<close> for a one-character separator\<close>
  "splitOn s sep = splitAcc sep [] s"

definition chompCR :: "string \<Rightarrow> string" where
  "chompCR s = (if s \<noteq> [] \<and> last s = CHR 0x0D then butlast s else s)"

definition splitLines :: "string \<Rightarrow> string list" where
  \<comment> \<open>\<open>s.split(/\r?\n/)\<close>: every separator match takes the line feed and one carriage
      return right before it, so each piece but the last loses one trailing CR\<close>
  "splitLines s = (let ps = splitOn s (CHR 0x0A) in map chompCR (butlast ps) @ [last ps])"

primrec addAll :: "'a list \<Rightarrow> 'a list \<Rightarrow> 'a list" where
  "addAll seen [] = seen"
| "addAll seen (x # xs) = addAll (if x \<in> set seen then seen else seen @ [x]) xs"

definition fromSet :: "'a list \<Rightarrow> 'a list" where
  \<comment> \<open>\<open>Array.from(new Set(xs))\<close>: a Set keeps the first insertion of each value, in order\<close>
  "fromSet xs = addAll [] xs"

definition safeName :: "string \<Rightarrow> string" where
  \<comment> \<open>\<open>name.replace(/\//g, "+")\<close>\<close>
  "safeName name = map (\<lambda>c. if c = CHR ''/'' then CHR ''+'' else c) name"

definition pathJoin :: "string \<Rightarrow> string \<Rightarrow> string" where
  \<comment> \<open>\<open>path.join(dir, seg)\<close> for one segment; Node's normalisation of the joined path
      (\<open>.\<close>, \<open>..\<close>, doubled separators) is not modelled: a file is its path string\<close>
  "pathJoin dir seg = dir @ ''/'' @ seg"

section \<open>Heuristic scanner (server.js, isObfuscated)\<close>

definition isObfuscated :: "string \<Rightarrow> bool" where
  "isObfuscated code =
     (let lines = splitOn code (CHR 0x0A) in
      if length lines = 1 \<and> length code > 1000 then True
      else
        let avgLineLength = real (length code) / real (length lines) in
        if avgLineLength > 200 then True else False)"

section \<open>Risk score (server.js, /scan/score)\<close>

text \<open>
  The counts are JavaScript numbers, that is, doubles. A count is a double whose value is a
  natural number, \<open>+Infinity\<close> or \<open>NaN\<close>; \<open>toDouble\<close> rounds an exact natural result to
  the nearest double, ties to even: 53 significant bits, and \<open>+Infinity\<close> from \<open>2 ^ 1024\<close>
  on. Addition and multiplication round their exact result once.
\<close>

datatype jsnum = Num nat | PosInfinity | NaN

fun expo :: "nat \<Rightarrow> nat" where
  \<comment> \<open>the number of low bits that do not fit into 53 significant bits\<close>
  "expo n = (if n < 2 ^ 53 then 0 else Suc (expo (n div 2)))"

declare expo.simps [simp del]

definition toDouble :: "nat \<Rightarrow> jsnum" where
  "toDouble n =
     (let e = expo n;
          q = n div 2 ^ e;
          r = n mod 2 ^ e;
          m = (if 2 * r > 2 ^ e \<or> (2 * r = 2 ^ e \<and> odd q) then q + 1 else q) * 2 ^ e
      in if m \<ge> 2 ^ 1024 then PosInfinity else Num m)"

fun jsAdd :: "jsnum \<Rightarrow> jsnum \<Rightarrow> jsnum" where
  "jsAdd (Num a) (Num b) = toDouble (a + b)"
| "jsAdd NaN y = NaN"
| "jsAdd x NaN = NaN"
| "jsAdd x y = PosInfinity"

fun jsMul :: "jsnum \<Rightarrow> jsnum \<Rightarrow> jsnum" where
  "jsMul (Num a) (Num b) = toDouble (a * b)"
| "jsMul NaN y = NaN"
| "jsMul x NaN = NaN"
| "jsMul PosInfinity (Num b) = (if b = 0 then NaN else PosInfinity)"
| "jsMul (Num a) PosInfinity = (if a = 0 then NaN else PosInfinity)"
| "jsMul PosInfinity PosInfinity = PosInfinity"

record audit =
  vulnerabilities :: "nat list option"
    \<comment> \<open>the integers written as the values of \<open>auditResults.metadata.vulnerabilities\<close>,
        when both links exist; \<open>JSON.parse\<close> reads each as a double\<close>
  advisories :: "string list option"
    \<comment> \<open>the \<open>severity\<close> of each advisory, when \<open>auditResults.advisories\<close> exists\<close>

record scoreResult =
  vulnerabilityCount :: jsnum
  c2Count :: jsnum
  githubHighRiskCount :: jsnum
  riskScore :: jsnum

definition computeRiskScore :: "jsnum \<Rightarrow> jsnum \<Rightarrow> jsnum \<Rightarrow> jsnum" where
  \<comment> \<open>\<open>vulnerabilityCount + c2Count * 2 + githubHighRiskCount * 3\<close>\<close>
  "computeRiskScore vulnerabilityCnt c2Cnt githubHighRiskCnt =
     jsAdd (jsAdd vulnerabilityCnt (jsMul c2Cnt (Num 2))) (jsMul githubHighRiskCnt (Num 3))"

definition scanScore :: "string + audit \<Rightarrow> string + string \<Rightarrow> string + scoreResult" where
  \<comment> \<open>the route handler: \<open>Inl\<close> is the message of a failed \<open>npm audit\<close> run or parse, or of a
      failed \<open>tshark\<close> run, which the handler answers with status 500; the length of an
      array is below \<open>2 ^ 32\<close> and exact\<close>
  "scanScore npmAudit tshark =
     (case npmAudit of
        Inl e \<Rightarrow> Inl e
      | Inr auditResults \<Rightarrow>
          let vulnerabilityCnt =
                (case vulnerabilities auditResults of
                   None \<Rightarrow> Num 0
                 | Some counts \<Rightarrow> foldl jsAdd (Num 0) (map toDouble counts));
              githubHighRiskCnt =
                (case advisories auditResults of
                   None \<Rightarrow> Num 0
                 | Some sevs \<Rightarrow>
                     foldl (\<lambda>n sev. if sev = ''high'' \<or> sev = ''critical'' then jsAdd n (Num 1) else n)
                           (Num 0) sevs)
          in
          (case tshark of
             Inl e \<Rightarrow> Inl e
           | Inr tsharkStdout \<Rightarrow>
               let domains = fromSet (filter (\<lambda>l. trim l \<noteq> []) (splitOn tsharkStdout (CHR 0x0A)));
                   c2Cnt = Num (length domains)
               in Inr \<lparr> vulnerabilityCount = vulnerabilityCnt,
                        c2Count = c2Cnt,
                        githubHighRiskCount = githubHighRiskCnt,
                        riskScore = computeRiskScore vulnerabilityCnt c2Cnt githubHighRiskCnt \<rparr>))"

section \<open>Sampler (sample_packages.js)\<close>

text \<open>
  The generator keeps a 32-bit state: \<open>seed >>> 0\<close>, then three xor-shift steps per call. The
  shifts and xors of JavaScript work on the 32-bit value of the number, so the state is a
  \<^typ>\<open>32 word\<close>. A call returns \<open>(s >>> 0) / 0xffffffff\<close>, and the index is
  \<open>Math.floor(rng() * (i + 1))\<close>: a quotient and a product of doubles. A double is the real
  number it stands for, and \<open>roundDouble\<close> rounds an exact result to the nearest double,
  ties to even: 53 significant bits, that is, a multiple of \<open>2 ^ -k\<close> for the least \<open>k\<close> with
  \<open>2 ^ 52 \<le> x * 2 ^ k\<close>, and of \<open>2 ^ -1074\<close> for the subnormal numbers. It is meant for
  \<open>0 \<le> x < 2 ^ 53\<close>, where the quotient (at most 1) and the product (at most the length of
  the array, below \<open>2 ^ 32\<close>) lie; \<open>i + 1\<close> is exact there.
\<close>

definition roundHalfEven :: "real \<Rightarrow> int" where
  "roundHalfEven y =
     (let f = \<lfloor>y\<rfloor>; d = y - of_int f
      in if d < 1 / 2 then f else if d > 1 / 2 then f + 1 else if even f then f else f + 1)"

definition doubleExp :: "real \<Rightarrow> nat" where
  "doubleExp x = (case find (\<lambda>k. 2 ^ 52 \<le> x * 2 ^ k) [0 ..< 1074] of Some k \<Rightarrow> k | None \<Rightarrow> 1074)"

definition roundDouble :: "real \<Rightarrow> real" where
  "roundDouble x =
     (if x \<le> 0 then 0
      else of_int (roundHalfEven (x * 2 ^ doubleExp x)) / 2 ^ doubleExp x)"

definition xorshift :: "32 word \<Rightarrow> 32 word" where
  "xorshift s =
     (let s1 = s XOR push_bit 13 s;
          s2 = s1 XOR drop_bit 17 s1;
          s3 = s2 XOR push_bit 5 s2
      in s3)"

definition rngValue :: "32 word \<Rightarrow> real" where
  \<comment> \<open>\<open>(s >>> 0) / 0xffffffff\<close>\<close>
  "rngValue s = roundDouble (real (unat s) / 4294967295)"

definition jsGet :: "'a option list \<Rightarrow> nat \<Rightarrow> 'a option" where
  \<comment> \<open>\<open>a[i]\<close>: \<open>undefined\<close> (\<open>None\<close>) past the end\<close>
  "jsGet a i = (if i < length a then a ! i else None)"

definition jsSet :: "'a option list \<Rightarrow> nat \<Rightarrow> 'a option \<Rightarrow> 'a option list" where
  \<comment> \<open>\<open>a[i] = v\<close>: an index past the end extends the array\<close>
  "jsSet a i v =
     (if i < length a then a[i := v] else a @ replicate (i - length a) None @ [v])"

definition swap :: "'a option list \<Rightarrow> nat \<Rightarrow> nat \<Rightarrow> 'a option list" where
  \<comment> \<open>\<open>[a[i], a[j]] = [a[j], a[i]]\<close>: both reads, then the two writes in order\<close>
  "swap a i j = (let t0 = jsGet a j; t1 = jsGet a i in jsSet (jsSet a i t0) j t1)"

fun shuffleLoop :: "nat \<Rightarrow> 32 word \<Rightarrow> 'a option list \<Rightarrow> 'a option list" where
  "shuffleLoop 0 s a = a"
| "shuffleLoop (Suc i) s a =
     (let s' = xorshift s;
          j = nat \<lfloor>roundDouble (rngValue s' * real (Suc i + 1))\<rfloor>
      in shuffleLoop i s' (swap a (Suc i) j))"

definition slice0 :: "'a list \<Rightarrow> int \<Rightarrow> 'a list" where
  \<comment> \<open>\<open>a.slice(0, end)\<close>: a negative end counts from the end of the array\<close>
  "slice0 a e = (if e < 0 then take (nat (int (length a) + e)) a else take (nat e) a)"

definition seed :: "32 word" where
  "seed = 20250801"

definition samplePackages :: "'a list \<Rightarrow> int \<Rightarrow> 'a option list" where
  \<comment> \<open>the script from the shuffle on: \<open>all\<close> is the list of names read, \<open>sampleSize\<close> the
      parsed second argument\<close>
  "samplePackages all sampleSize =
     slice0 (shuffleLoop (length all - 1) seed (map Some all)) sampleSize"

section \<open>Sandbox executor (dynamic_c2_scan_docker.js)\<close>

subsection \<open>Domain extraction\<close>

definition elemAt :: "'a list \<Rightarrow> nat \<Rightarrow> 'a option" where
  \<comment> \<open>\<open>xs[i]\<close> read from an array without holes: \<open>undefined\<close> (\<open>None\<close>) past the end\<close>
  "elemAt xs i = (if i < length xs then Some (xs ! i) else None)"

definition lineName :: "string \<Rightarrow> string option" where
  \<comment> \<open>the loop body's \<open>parts\<close> and \<open>name = parts[0] || parts[1]\<close>\<close>
  "lineName line =
     (let parts = filter (\<lambda>x. x \<noteq> []) (map trim (splitOn line (CHR 0x09)))
      in case elemAt parts 0 of
           Some p \<Rightarrow> if p \<noteq> [] then Some p else elemAt parts 1
         | None \<Rightarrow> elemAt parts 1)"

fun scanLines :: "string list \<Rightarrow> string set \<times> string list \<Rightarrow> string set \<times> string list" where
  "scanLines [] (seen, domains) = (seen, domains)"
| "scanLines (line # rest) (seen, domains) =
     (if trim line = [] then scanLines rest (seen, domains)
      else
        case lineName line of
          Some name \<Rightarrow>
            if name \<noteq> [] \<and> name \<notin> seen
            then scanLines rest (insert name seen, domains @ [name])
            else scanLines rest (seen, domains)
        | None \<Rightarrow> scanLines rest (seen, domains))"

definition extractDomains :: "string \<Rightarrow> string list" where
  \<comment> \<open>from the text of the capture file to \<open>domains\<close>\<close>
  "extractDomains text = snd (scanLines (splitLines text) ({}, []))"

subsection \<open>The result record and its JSON text\<close>

record resultRecord =
  pkg :: string
  domains :: "string list"
  timestamp :: string

definition hexDigit :: "nat \<Rightarrow> char" where
  "hexDigit n = ''0123456789abcdef'' ! (n mod 16)"

definition jsonEscape :: "char \<Rightarrow> string" where
  \<comment> \<open>\<open>JSON.stringify\<close> on one code unit of a string\<close>
  "jsonEscape c =
     (if c = CHR 0x22 then [CHR 0x5C, CHR 0x22]
      else if c = CHR 0x5C then [CHR 0x5C, CHR 0x5C]
      else if c = CHR 0x08 then [CHR 0x5C, CHR ''b'']
      else if c = CHR 0x09 then [CHR 0x5C, CHR ''t'']
      else if c = CHR 0x0A then [CHR 0x5C, CHR ''n'']
      else if c = CHR 0x0C then [CHR 0x5C, CHR ''f'']
      else if c = CHR 0x0D then [CHR 0x5C, CHR ''r'']
      else if (of_char c :: nat) < 0x20
        then [CHR 0x5C, CHR ''u'', CHR ''0'', CHR ''0'',
              hexDigit (of_char c div 16), hexDigit (of_char c)]
      else [c])"

definition quote :: "string \<Rightarrow> string" where
  "quote s = [CHR 0x22] @ concat (map jsonEscape s) @ [CHR 0x22]"

fun joinWith :: "string \<Rightarrow> string list \<Rightarrow> string" where
  "joinWith sep [] = []"
| "joinWith sep [x] = x"
| "joinWith sep (x # y # ys) = x @ sep @ joinWith sep (y # ys)"

definition stringifyRecord :: "resultRecord \<Rightarrow> string" where
  \<comment> \<open>\<open>JSON.stringify(record, null, 2)\<close> of \<open>{ pkg, domains, vt: {}, timestamp }\<close>\<close>
  "stringifyRecord r =
     ''{'' @ [CHR 0x0A]
     @ ''  '' @ quote ''pkg'' @ '': '' @ quote (pkg r) @ '','' @ [CHR 0x0A]
     @ ''  '' @ quote ''domains'' @ '': ''
     @ (if domains r = [] then ''[]''
        else ''['' @ [CHR 0x0A]
             @ joinWith ('','' @ [CHR 0x0A]) (map (\<lambda>d. ''    '' @ quote d) (domains r))
             @ [CHR 0x0A] @ ''  ]'')
     @ '','' @ [CHR 0x0A]
     @ ''  '' @ quote ''vt'' @ '': {},'' @ [CHR 0x0A]
     @ ''  '' @ quote ''timestamp'' @ '': '' @ quote (timestamp r) @ [CHR 0x0A]
     @ ''}''"

subsection \<open>The job loop\<close>

text \<open>
  The file system is a map from path strings to file contents. The isolation runtime is
  outside the program: one \<open>docker run\<close> is described by what it leaves behind, namely
  \<open>r.error\<close> and the contents of the four side files that the container script names
  (\<open>/out/<safe>.start.txt\<close>, \<open>.pcap\<close>, \<open>.end.txt\<close>, \<open>.txt\<close>, seen by the host under
  the job's \<open>base\<close>); \<open>None\<close> is a file the run did not write. The world gives the run
  and the clock reading of the \<open>i\<close>-th iteration of the loop. Writes to the output
  directory are taken to succeed.
\<close>

record dockerRun =
  launchError :: "string option"
  startFile :: "string option"
  pcapFile :: "string option"
  endFile :: "string option"
  txtFile :: "string option"

record world =
  docker :: "nat \<Rightarrow> string \<Rightarrow> dockerRun"
  now :: "nat \<Rightarrow> string"

datatype event =
    SkipExisting string
  | RunPkg string
  | DockerRunFailed string string
  | Wrote string nat

record execState =
  files :: "string \<rightharpoonup> string"
  dockerCalls :: "string list"
  console :: "event list"

definition put :: "string \<Rightarrow> string option \<Rightarrow> (string \<rightharpoonup> string) \<Rightarrow> (string \<rightharpoonup> string)" where
  "put path content fs = (case content of None \<Rightarrow> fs | Some c \<Rightarrow> fs(path \<mapsto> c))"

definition containerWrites :: "string \<Rightarrow> dockerRun \<Rightarrow> (string \<rightharpoonup> string) \<Rightarrow> (string \<rightharpoonup> string)" where
  "containerWrites base r fs =
     put (base @ ''.txt'') (txtFile r)
       (put (base @ ''.end.txt'') (endFile r)
         (put (base @ ''.pcap'') (pcapFile r)
           (put (base @ ''.start.txt'') (startFile r) fs)))"

definition job :: "world \<Rightarrow> string \<Rightarrow> nat \<Rightarrow> string \<Rightarrow> execState \<Rightarrow> execState" where
  \<comment> \<open>one iteration of the \<open>for\<close> loop\<close>
  "job w outDir i p st =
     (let safe = safeName p;
          base = pathJoin outDir safe;
          outTxt = base @ ''.txt'';
          outJson = base @ ''.json''
      in
      if files st outJson \<noteq> None
      then st \<lparr> console := console st @ [SkipExisting p] \<rparr>
      else
        let r = docker w i p;
            fs1 = containerWrites base r (files st);
            failed = (case launchError r of Some m \<Rightarrow> [DockerRunFailed p m] | None \<Rightarrow> []);
            doms = (case fs1 outTxt of None \<Rightarrow> [] | Some text \<Rightarrow> extractDomains text);
            record = \<lparr> pkg = p, domains = doms, timestamp = now w i \<rparr>
        in \<lparr> files = fs1(outJson \<mapsto> stringifyRecord record),
             dockerCalls = dockerCalls st @ [p],
             console = console st @ [RunPkg p] @ failed @ [Wrote outJson (length doms)] \<rparr>)"

fun runJobs :: "world \<Rightarrow> string \<Rightarrow> nat \<Rightarrow> string list \<Rightarrow> execState \<Rightarrow> execState" where
  "runJobs w outDir i [] st = st"
| "runJobs w outDir i (p # ps) st = runJobs w outDir (Suc i) ps (job w outDir i p st)"

definition executor :: "world \<Rightarrow> string \<Rightarrow> string \<Rightarrow> execState \<Rightarrow> string + execState" where
  \<comment> \<open>the script with its two path arguments: it exits with status 1 (\<open>Inl\<close>) when the
      packages file does not exist\<close>
  "executor w pkgsFile outDir st =
     (case files st pkgsFile of
        None \<Rightarrow> Inl ''packages file not found''
      | Some text \<Rightarrow>
          let pkgs = filter (\<lambda>l. l \<noteq> []) (map trim (splitLines text))
          in Inr (runJobs w outDir 0 pkgs st))"

section \<open>Fetch pipeline (download-packages.js)\<close>

subsection \<open>Registry metadata and version selection\<close>

text \<open>
  The registry, the file system and \<open>tar\<close> are outside the program. A registry record holds
  what \<open>processPackage\<close> reads of the metadata: the entries of \<open>meta.time\<close> in
  \<open>Object.entries\<close> order, each value already read by \<open>new Date(t)\<close> (its time value in
  milliseconds, \<open>None\<close> for an invalid date), and the tarball URL of a version (\<open>None\<close>
  when \<open>meta.versions\<close>, the version, its \<open>dist\<close> or the \<open>tarball\<close> is missing). The
  cutoff is a date as well, \<open>None\<close> when the argument does not parse.
\<close>

record registryMeta =
  timeMap :: "(string \<times> int option) list option"
  tarballOf :: "string \<Rightarrow> string option"

definition versionEntries :: "int option \<Rightarrow> (string \<times> int option) list \<Rightarrow> (string \<times> int) list" where
  \<comment> \<open>the two filters around the map to dates; \<open>time <= cutoffDate\<close> is false when either
      date is invalid\<close>
  "versionEntries cutoffDate tm =
     concat (map (\<lambda>(ver, time).
               case (time, cutoffDate) of
                 (Some t, Some c) \<Rightarrow> if t \<le> c then [(ver, t)] else []
               | _ \<Rightarrow> [])
             (filter (\<lambda>(ver, t). ver \<noteq> ''created'' \<and> ver \<noteq> ''modified'') tm))"

definition selectVersion :: "int option \<Rightarrow> registryMeta \<Rightarrow> string + string" where
  \<comment> \<open>lines 93 to 106: \<open>Inl\<close> is the message of the error thrown; the sort is stable and
      ascending by time, and the last entry is taken\<close>
  "selectVersion cutoffDate meta =
     (let entries = versionEntries cutoffDate (case timeMap meta of None \<Rightarrow> [] | Some tm \<Rightarrow> tm)
      in if length entries = 0 then Inl ''NO_VERSION_BEFORE_CUTOFF''
         else Inr (fst (last (sort_key snd entries))))"

subsection \<open>One package\<close>

definition unreserved :: "char \<Rightarrow> bool" where
  "unreserved c =
     (c \<in> set ''ABCDEFGHIJKLMNOPQRSTUVWXYZabcdefghijklmnopqrstuvwxyz0123456789-_.!~*()''
      \<or> c = CHR 0x27)"

definition upperHex :: "nat \<Rightarrow> char" where
  "upperHex n = ''0123456789ABCDEF'' ! (n mod 16)"

definition pct :: "nat \<Rightarrow> string" where
  "pct b = [CHR ''%'', upperHex (b div 16), upperHex b]"

definition encodeURIComponent :: "string \<Rightarrow> string" where
  \<comment> \<open>code units from 128 to 255 are two bytes in UTF-8\<close>
  "encodeURIComponent s =
     concat (map (\<lambda>c. let n = (of_char c :: nat) in
                    if unreserved c then [c]
                    else if n < 128 then pct n
                    else pct (192 + n div 64) @ pct (128 + n mod 64)) s)"

record registry =
  fetchJSON :: "nat \<Rightarrow> string \<Rightarrow> string + registryMeta option"
    \<comment> \<open>call number and URL; \<open>Inl\<close> the text of a rejection, \<open>Inr None\<close> the JSON \<open>null\<close>\<close>
  mkdir :: "nat \<Rightarrow> string \<Rightarrow> string option"
    \<comment> \<open>\<open>Some\<close> the text of the error\<close>
  downloadFile :: "nat \<Rightarrow> nat \<Rightarrow> string \<Rightarrow> string \<Rightarrow> string option"
    \<comment> \<open>call number, attempt, URL and destination; \<open>Some\<close> the message of the error\<close>
  tar :: "nat \<Rightarrow> string \<Rightarrow> string \<Rightarrow> string option"
    \<comment> \<open>call number, archive and directory; \<open>Some\<close> the message of the error\<close>

datatype ledgerEntry =
    Success string string string
  | Failure string string

fun ok :: "ledgerEntry \<Rightarrow> bool" where
  "ok (Success p v d) = True"
| "ok (Failure p e) = False"

fun entryPkg :: "ledgerEntry \<Rightarrow> string" where
  "entryPkg (Success p v d) = p"
| "entryPkg (Failure p e) = p"

datatype io =
    FetchMeta string
  | Mkdir string
  | Download string string
  | Sleep nat
  | Extract string string

record fetchState =
  extractedDirs :: "string set"
    \<comment> \<open>the directories that hold extracted content\<close>
  calls :: "io list"
    \<comment> \<open>the requests made so far, in order\<close>

definition MAX_DL_TRIES :: nat where
  "MAX_DL_TRIES = 3"

fun tryDownload :: "registry \<Rightarrow> nat \<Rightarrow> string \<Rightarrow> string \<Rightarrow> nat list \<Rightarrow> (string + unit) \<times> io list" where
  \<comment> \<open>the retry loop over the attempts \<open>1 .. MAX_DL_TRIES\<close>\<close>
  "tryDownload reg k url dest [] = (Inr (), [])"
| "tryDownload reg k url dest (attempt # rest) =
     (case downloadFile reg k attempt url dest of
        None \<Rightarrow> (Inr (), [Download url dest])
      | Some e \<Rightarrow>
          if attempt < MAX_DL_TRIES
          then (let (r, ios) = tryDownload reg k url dest rest
                in (r, Download url dest # Sleep (1000 * attempt) # ios))
          else (Inl (''DOWNLOAD_FAILED: '' @ e), [Download url dest]))"

definition nullTimeError :: string where
  "nullTimeError = ''Cannot read properties of null (reading '' @ [CHR 0x27] @ ''time''
                    @ [CHR 0x27] @ '')''"

definition processPackage ::
  "registry \<Rightarrow> int option \<Rightarrow> string \<Rightarrow> nat \<Rightarrow> string \<Rightarrow> fetchState \<Rightarrow> ledgerEntry \<times> fetchState" where
  "processPackage reg cutoffDate outDir k pkgName st =
     (let metaUrl = ''https://registry.npmjs.org/'' @ encodeURIComponent pkgName;
          st1 = st \<lparr> calls := calls st @ [FetchMeta metaUrl] \<rparr>
      in
      case fetchJSON reg k metaUrl of
        Inl e \<Rightarrow> (Failure pkgName e, st1)
      | Inr None \<Rightarrow> (Failure pkgName nullTimeError, st1)
      | Inr (Some meta) \<Rightarrow>
          (case selectVersion cutoffDate meta of
             Inl e \<Rightarrow> (Failure pkgName e, st1)
           | Inr selected \<Rightarrow>
               (case tarballOf meta selected of
                  None \<Rightarrow> (Failure pkgName ''NO_TARBALL_FOR_SELECTED_VERSION'', st1)
                | Some tarballUrl \<Rightarrow>
                    if tarballUrl = [] then (Failure pkgName ''NO_TARBALL_FOR_SELECTED_VERSION'', st1)
                    else
                      let pkgOutBase = pathJoin outDir (safeName pkgName);
                          tgzPath = pathJoin pkgOutBase (safeName pkgName @ ''-'' @ selected @ ''.tgz'');
                          st2 = st1 \<lparr> calls := calls st1 @ [Mkdir pkgOutBase] \<rparr>
                      in
                      (case mkdir reg k pkgOutBase of
                         Some e \<Rightarrow> (Failure pkgName e, st2)
                       | None \<Rightarrow>
                           let (dl, ios) = tryDownload reg k tarballUrl tgzPath [1 ..< Suc MAX_DL_TRIES];
                               st3 = st2 \<lparr> calls := calls st2 @ ios \<rparr>
                           in
                           (case dl of
                              Inl e \<Rightarrow> (Failure pkgName e, st3)
                            | Inr u \<Rightarrow>
                                let st4 = st3 \<lparr> calls := calls st3 @ [Extract tgzPath pkgOutBase] \<rparr>
                                in
                                (case tar reg k tgzPath pkgOutBase of
                                   Some e \<Rightarrow> (Failure pkgName (''EXTRACT_FAILED: '' @ e), st4)
                                 | None \<Rightarrow>
                                     (Success pkgName selected pkgOutBase,
                                      st4 \<lparr> extractedDirs := insert pkgOutBase (extractedDirs st4) \<rparr>)))))))"

subsection \<open>The queue\<close>

text \<open>
  A promise started by \<open>enqueueNext\<close> is the pair of its call number and the value it
  settles to: the worker's result, or the failure entry that the wrapper makes of a
  rejection (\<open>Inl\<close>). \<open>active\<close> holds the pending promises in the order of their start.
  Between two continuations of the \<open>while\<close> loop one or more pending promises settle. Each
  of them runs its \<open>finally\<close> callback, which splices it out of \<open>active\<close>, before the
  loop continues; \<open>Promise.race\<close> delivers the value of the first of them only, and the
  loop pushes that one value and starts one more worker. The schedule gives, for each turn
  of the loop, the position in \<open>active\<close> of the promise that settles first and the call
  numbers of the promises that settle with it. The \<open>catch\<close> branch of the loop is not
  reached, since no promise in \<open>active\<close> rejects.
\<close>

record queue =
  idx :: nat
  active :: "(nat \<times> ledgerEntry) list"
  results :: "ledgerEntry list"

definition wrapped :: "(nat \<Rightarrow> string \<Rightarrow> string + ledgerEntry) \<Rightarrow> nat \<Rightarrow> string \<Rightarrow> ledgerEntry" where
  \<comment> \<open>the value of the promise \<open>p\<close>: \<open>try { return await worker(item) } catch (e) { ... }\<close>\<close>
  "wrapped worker k item = (case worker k item of Inr r \<Rightarrow> r | Inl e \<Rightarrow> Failure item e)"

definition enqueueNext :: "string list \<Rightarrow> (nat \<Rightarrow> string \<Rightarrow> string + ledgerEntry) \<Rightarrow> queue \<Rightarrow> queue" where
  "enqueueNext items worker q =
     (if idx q \<ge> length items then q
      else
        let item = items ! idx q;
            p = wrapped worker (idx q) item
        in q \<lparr> idx := idx q + 1, active := active q @ [(idx q, p)] \<rparr>)"

function raceLoop ::
  "string list \<Rightarrow> (nat \<Rightarrow> string \<Rightarrow> string + ledgerEntry) \<Rightarrow> (nat \<Rightarrow> nat \<times> (nat \<Rightarrow> bool))
     \<Rightarrow> nat \<Rightarrow> queue \<Rightarrow> queue" where
  "raceLoop items worker sched turn q =
     (if idx q < length items \<or> length (active q) > 0
      then
        if length (active q) = 0 then q
        else
          let pos = fst (sched turn) mod length (active q);
              p = active q ! pos;
              settled = (\<lambda>k. k = fst p \<or> snd (sched turn) k);
              q1 = q \<lparr> active := filter (\<lambda>(k, v). \<not> settled k) (active q),
                       results := results q @ [snd p] \<rparr>
          in raceLoop items worker sched (Suc turn) (enqueueNext items worker q1)
      else q)"
  by pat_completeness auto
termination
proof (relation "measure (\<lambda>(items, worker, sched, turn, q). (length items - idx q) + length (active q))",
       goal_cases)
  case 1
  show ?case by simp
next
  case (2 items worker sched turn q pos p settled q1)
  have nz: "0 < length (active q)" using 2 by simp
  then have "pos < length (active q)" using 2 by simp
  then have "p \<in> set (active q)" using 2 by simp
  moreover have "settled (fst p)" using 2 by simp
  then have "\<not> (case p of (k, v) \<Rightarrow> \<not> settled k)" by (simp add: case_prod_beta)
  ultimately have "length (filter (\<lambda>(k, v). \<not> settled k) (active q)) < length (active q)"
    by (rule length_filter_less)
  then have less: "length (active q1) < length (active q)" using 2 by simp
  have same: "idx q1 = idx q" using 2 by simp
  show ?case using less same by (auto simp add: enqueueNext_def Let_def)
qed

definition runQueue ::
  "string list \<Rightarrow> (nat \<Rightarrow> string \<Rightarrow> string + ledgerEntry) \<Rightarrow> int \<Rightarrow> (nat \<Rightarrow> nat \<times> (nat \<Rightarrow> bool))
     \<Rightarrow> ledgerEntry list" where
  "runQueue items worker concurrency sched =
     (let q0 = \<lparr> idx = 0, active = [], results = [] \<rparr>;
          q1 = (enqueueNext items worker ^^ nat (min concurrency (int (length items)))) q0;
          q2 = raceLoop items worker sched 0 q1
      in results q2 @ map snd (active q2))"

definition fetchPipeline ::
  "registry \<Rightarrow> int option \<Rightarrow> string \<Rightarrow> string list \<Rightarrow> int \<Rightarrow> (nat \<Rightarrow> nat \<times> (nat \<Rightarrow> bool))
     \<Rightarrow> fetchState \<Rightarrow> string + ledgerEntry list \<times> ledgerEntry list" where
  \<comment> \<open>the run from the names read to the two ledgers \<open>success\<close> and \<open>failed\<close>. The first
      statement prints \<open>cutoffDate.toISOString()\<close>, which throws for an invalid date: the
      run ends there (\<open>Inl\<close>) with nothing caught. The entry of a package does not depend
      on the state it starts from. The registry covers the runs in which no write stream of
      \<open>downloadFile\<close> emits an error: the source registers no listener for one, and it
      ends the process\<close>
  "fetchPipeline reg cutoffDate outDir lines CONCURRENCY sched st =
     (case cutoffDate of
        None \<Rightarrow> Inl ''Invalid time value''
      | Some c \<Rightarrow>
          let rs = runQueue lines
                     (\<lambda>k item. Inr (fst (processPackage reg cutoffDate outDir k item st)))
                     CONCURRENCY sched;
              success = filter ok rs;
              failed = filter (\<lambda>r. \<not> ok r) rs
          in Inr (success, failed))"

section \<open>Reputation lookup (server.js, /scan/c2)\<close>

datatype vtEntry =
    Reputation string string
  | QueryError string string

datatype 'a settled =
    Fulfilled 'a
  | Rejected "string option" "string option"

datatype step =
    Delay nat
  | HttpGet string

datatype c2Response =
    NoDnsQueries
  | C2Data "vtEntry list"
  | C2ScanFailed string

definition queryVirusTotal :: "(string \<Rightarrow> string + string) \<Rightarrow> string \<Rightarrow> step list \<times> vtEntry" where
  \<comment> \<open>the steps of one query and the value its promise fulfils with; \<open>Inl\<close> is the
      message of a failed request\<close>
  "queryVirusTotal axiosGet domain =
     (let url = ''https://www.virustotal.com/api/v3/domains/'' @ domain
      in ([Delay 1000, HttpGet url],
          case axiosGet url of
            Inr data \<Rightarrow> Reputation domain data
          | Inl message \<Rightarrow> QueryError domain message))"

definition finalResult :: "vtEntry settled \<Rightarrow> vtEntry" where
  "finalResult result =
     (case result of
        Fulfilled v \<Rightarrow> v
      | Rejected d m \<Rightarrow>
          QueryError (case d of Some x \<Rightarrow> if x \<noteq> [] then x else ''unknown'' | None \<Rightarrow> ''unknown'')
                     (case m of Some x \<Rightarrow> if x \<noteq> [] then x else ''Unknown error''
                              | None \<Rightarrow> ''Unknown error''))"

definition lookupBatch :: "(string \<Rightarrow> string + string) \<Rightarrow> string list \<Rightarrow> vtEntry list" where
  \<comment> \<open>\<open>Promise.allSettled(selectedDomains.map(queryVirusTotal))\<close>, then the map to
      \<open>finalResults\<close>\<close>
  "lookupBatch axiosGet selectedDomains =
     (let settledResults = map (\<lambda>d. Fulfilled (snd (queryVirusTotal axiosGet d))) selectedDomains
      in map finalResult settledResults)"

definition scanC2 :: "string + string \<Rightarrow> (string \<Rightarrow> string + string) \<Rightarrow> c2Response" where
  \<comment> \<open>the route handler without the persistence of the result; \<open>Inl\<close> is the message of a
      failed \<open>tshark\<close> run\<close>
  "scanC2 tshark axiosGet =
     (case tshark of
        Inl e \<Rightarrow> C2ScanFailed e
      | Inr stdout \<Rightarrow>
          let domains = fromSet (filter (\<lambda>d. d \<noteq> []) (map trim (splitOn stdout (CHR 0x0A))))
          in if length domains = 0 then NoDnsQueries
             else
               let maxQueries = 5;
                   selectedDomains = take maxQueries domains
               in C2Data (lookupBatch axiosGet selectedDomains))"

section \<open>Properties of the heuristic scanner\<close>

lemma length_splitAcc: "length (splitAcc sep cur s) = Suc (count_list s sep)"
  by (induction s arbitrary: cur) auto

lemma length_splitOn: "length (splitOn s sep) = Suc (count_list s sep)"
  by (simp add: splitOn_def length_splitAcc)

lemma isObfuscated_nat: "isObfuscated code \<longleftrightarrow> 200 * length (splitOn code (CHR 0x0A)) < length code"
proof -
  let ?n = "length (splitOn code (CHR 0x0A))"
  have pos: "0 < ?n" by (simp add: length_splitOn)
  have avg: "(200 < real (length code) / real ?n) \<longleftrightarrow> 200 * ?n < length code"
  proof -
    have "(200 < real (length code) / real ?n) \<longleftrightarrow> 200 * real ?n < real (length code)"
      using pos by (simp add: pos_less_divide_eq)
    also have "\<dots> \<longleftrightarrow> 200 * ?n < length code"
      by (metis of_nat_less_iff of_nat_mult of_nat_numeral)
    finally show ?thesis .
  qed
  show ?thesis
    unfolding isObfuscated_def Let_def using avg by auto
qed


lemma count_list_replicate_other: "x \<noteq> y \<Longrightarrow> count_list (replicate n x) y = 0"
  by (induction n) auto


text \<open>
  C6. \<open>isObfuscated\<close> returns true exactly when the text is a single line (no line feed) of
  more than 1000 characters, or when its average characters per line is strictly above 200.
  The average is the one the function computes: the length of the whole text, line feeds
  included, over its number of lines. A single line of 1200 characters is flagged; 50 lines
  averaging 40 characters are not; a text whose average is exactly 200 is not.
\<close>

theorem isObfuscated_spec:
  "(isObfuscated code \<longleftrightarrow>
      (count_list code (CHR 0x0A) = 0 \<and> 1000 < length code)
      \<or> 200 < real (length code) / real (count_list code (CHR 0x0A) + 1))
   \<and> (count_list code (CHR 0x0A) = 0 \<and> length code = 1200 \<longrightarrow> isObfuscated code)
   \<and> (count_list code (CHR 0x0A) + 1 = 50 \<and> real (length code) / 50 = 40 \<longrightarrow> \<not> isObfuscated code)
   \<and> (real (length code) / real (count_list code (CHR 0x0A) + 1) = 200 \<longrightarrow> \<not> isObfuscated code)"
proof -
  let ?n = "count_list code (CHR 0x0A) + 1"
  have n: "length (splitOn code (CHR 0x0A)) = ?n" by (simp add: length_splitOn)
  have a: "isObfuscated code \<longleftrightarrow>
      (count_list code (CHR 0x0A) = 0 \<and> 1000 < length code) \<or> 200 < real (length code) / real ?n"
    unfolding isObfuscated_def Let_def n by auto
  have b: "count_list code (CHR 0x0A) = 0 \<and> length code = 1200 \<longrightarrow> isObfuscated code"
    using a by simp
  have c: "?n = 50 \<and> real (length code) / 50 = 40 \<longrightarrow> \<not> isObfuscated code"
    using a by auto
  have d: "real (length code) / real ?n = 200 \<longrightarrow> \<not> isObfuscated code"
    using isObfuscated_nat[of code] n by (auto simp: field_simps)
  from a b c d show ?thesis by blast
qed

lemma count_list_replicate_same: "count_list (replicate n x) x = n"
  by (induction n) auto

theorem isObfuscated_spec_witness:
  "(count_list (replicate 1200 (CHR ''a'')) (CHR 0x0A) = 0
      \<and> length (replicate 1200 (CHR ''a'')) = 1200
      \<and> isObfuscated (replicate 1200 (CHR ''a'')))
   \<and> (count_list (replicate 49 (CHR 0x0A) @ replicate 1951 (CHR ''a'')) (CHR 0x0A) + 1 = 50
      \<and> real (length (replicate 49 (CHR 0x0A) @ replicate 1951 (CHR ''a''))) / 50 = 40
      \<and> \<not> isObfuscated (replicate 49 (CHR 0x0A) @ replicate 1951 (CHR ''a'')))
   \<and> (real (length (replicate 199 (CHR ''a'') @ [CHR 0x0A] @ replicate 200 (CHR ''b'')))
        / real (count_list (replicate 199 (CHR ''a'') @ [CHR 0x0A] @ replicate 200 (CHR ''b''))
                  (CHR 0x0A) + 1) = 200
      \<and> \<not> isObfuscated (replicate 199 (CHR ''a'') @ [CHR 0x0A] @ replicate 200 (CHR ''b'')))"
proof -
  let ?one = "replicate 1200 (CHR ''a'')"
  let ?fifty = "replicate 49 (CHR 0x0A) @ replicate 1951 (CHR ''a'')"
  let ?edge = "replicate 199 (CHR ''a'') @ [CHR 0x0A] @ replicate 200 (CHR ''b'')"
  have h1: "count_list ?one (CHR 0x0A) = 0 \<and> length ?one = 1200"
    by (simp add: count_list_replicate_other)
  have h2: "count_list ?fifty (CHR 0x0A) + 1 = 50 \<and> real (length ?fifty) / 50 = 40"
    by (simp add: count_list_replicate_other count_list_replicate_same)
  have h3: "real (length ?edge) / real (count_list ?edge (CHR 0x0A) + 1) = 200"
    by (simp add: count_list_replicate_other)
  from isObfuscated_spec [of ?one] h1 have c1: "isObfuscated ?one" by blast
  from isObfuscated_spec [of ?fifty] h2 have c2: "\<not> isObfuscated ?fifty" by blast
  from isObfuscated_spec [of ?edge] h3 have c3: "\<not> isObfuscated ?edge" by blast
  from h1 h2 h3 c1 c2 c3 show ?thesis by (intro conjI) simp_all
qed

section \<open>Properties of the risk score\<close>

lemma expo_small: "n < 2 ^ 53 \<Longrightarrow> expo n = 0"
  by (simp add: expo.simps)

lemma toDouble_small: "n < 2 ^ 53 \<Longrightarrow> toDouble n = Num n"
proof -
  assume a: "n < 2 ^ 53"
  have "(2::nat) ^ 53 \<le> 2 ^ 1024" by (rule power_increasing) simp_all
  then have "\<not> 2 ^ 1024 \<le> n" using a by linarith
  then show ?thesis using a by (simp add: toDouble_def expo_small Let_def)
qed

lemma toDouble_53: "toDouble (2 ^ 53) = Num (2 ^ 53)"
proof -
  have e: "expo (2 ^ 53) = Suc 0"
    by (subst expo.simps) (simp add: expo_small)
  have "(2::nat) ^ 53 < 2 ^ 1024" by (rule power_strict_increasing) simp_all
  then have n: "\<not> (2::nat) ^ 1024 \<le> 2 ^ 53" by linarith
  have q: "(2::nat) ^ 53 div 2 * 2 = 2 ^ 53" by simp
  have r: "(2::nat) ^ 53 mod 2 = 0" by simp
  show ?thesis
    using n by (simp only: toDouble_def e Let_def power_Suc power_0 mult_1_right q r)
      (simp)
qed

lemma toDouble_exact: "n \<le> 2 ^ 53 \<Longrightarrow> toDouble n = Num n"
  using toDouble_small[of n] toDouble_53 by (cases "n = 2 ^ 53") auto

lemma score_exact:
  assumes "v + c * 2 + h * 3 \<le> 2 ^ 53"
  shows "computeRiskScore (Num v) (Num c) (Num h) = Num (v + c * 2 + h * 3)"
proof -
  have a: "toDouble (c * 2) = Num (c * 2)" using assms by (intro toDouble_exact) linarith
  have b: "toDouble (h * 3) = Num (h * 3)" using assms by (intro toDouble_exact) linarith
  have c: "toDouble (v + c * 2) = Num (v + c * 2)" using assms by (intro toDouble_exact) linarith
  have d: "toDouble (v + c * 2 + h * 3) = Num (v + c * 2 + h * 3)"
    using assms by (rule toDouble_exact)
  show ?thesis by (simp add: computeRiskScore_def a b c d)
qed

lemma score_rounds:
  "computeRiskScore (Num 9007199254740992) (Num 0) (Num 1) = Num 9007199254740996"
proof -
  have s: "toDouble 3 = Num 3" "toDouble 0 = Num 0" by (rule toDouble_small, simp)+
  have v: "toDouble 9007199254740992 = Num 9007199254740992"
    using toDouble_53 by simp
  have e: "expo 9007199254740995 = Suc 0"
    by (subst expo.simps) (simp add: expo_small)
  have "(2::nat) ^ 54 < 2 ^ 1024" by (rule power_strict_increasing) simp_all
  then have n: "\<not> (2::nat) ^ 1024 \<le> 9007199254740996" by simp
  have t: "toDouble 9007199254740995 = Num 9007199254740996"
    using n by (simp add: toDouble_def e Let_def)
  show ?thesis by (simp add: computeRiskScore_def s v t)
qed

text \<open>
  C7, as stated, fails: for the counts \<open>2 ^ 53\<close>, 0 and 1 the formula gives
  9007199254740995, which is no double, and the score computed is 9007199254740996.
\<close>

theorem riskScore_rounding_counterexample:
  "computeRiskScore (Num 9007199254740992) (Num 0) (Num 1) = Num 9007199254740996
   \<and> (9007199254740992 + 0 * 2 + 1 * 3 :: nat) \<noteq> 9007199254740996"
  using score_rounds by simp

text \<open>
  C7, amended. For all counts whose formula value \<open>v + c * 2 + h * 3\<close> is at most
  \<open>2 ^ 53\<close>, the risk score is exactly that value; the counts 3, 2 and 1 give 10; and the
  score that the route reports is the score of the three counts it reports.
\<close>

theorem riskScore_formula_exact:
  "(v + c * 2 + h * 3 \<le> 2 ^ 53 \<longrightarrow>
      computeRiskScore (Num v) (Num c) (Num h) = Num (v + c * 2 + h * 3))
   \<and> computeRiskScore (Num 3) (Num 2) (Num 1) = Num 10
   \<and> (scanScore npmAudit tshark = Inr r \<longrightarrow>
        riskScore r = computeRiskScore (vulnerabilityCount r) (c2Count r) (githubHighRiskCount r))"
proof -
  have a: "v + c * 2 + h * 3 \<le> 2 ^ 53 \<longrightarrow>
      computeRiskScore (Num v) (Num c) (Num h) = Num (v + c * 2 + h * 3)"
    using score_exact by blast
  have "(3::nat) + 2 * 2 + 1 * 3 \<le> 2 ^ 53" by simp
  from score_exact[OF this] have b: "computeRiskScore (Num 3) (Num 2) (Num 1) = Num 10" by simp
  have c: "scanScore npmAudit tshark = Inr r \<longrightarrow>
        riskScore r = computeRiskScore (vulnerabilityCount r) (c2Count r) (githubHighRiskCount r)"
    by (auto simp add: scanScore_def Let_def split: sum.splits)
  from a b c show ?thesis by (intro conjI)
qed

theorem riskScore_formula_exact_witness:
  "(3::nat) + 2 * 2 + 1 * 3 \<le> 2 ^ 53
   \<and> computeRiskScore (Num 3) (Num 2) (Num 1) = Num (3 + 2 * 2 + 1 * 3)
   \<and> scanScore (Inr \<lparr> vulnerabilities = Some [1, 2], advisories = Some [''high'', ''low''] \<rparr>)
             (Inr (''a.com'' @ [CHR 0x0A] @ ''b.com'' @ [CHR 0x0A] @ ''a.com'' @ [CHR 0x0A]))
       = Inr \<lparr> vulnerabilityCount = Num 3, c2Count = Num 2, githubHighRiskCount = Num 1,
                riskScore = Num 10 \<rparr>
   \<and> riskScore \<lparr> vulnerabilityCount = Num 3, c2Count = Num 2, githubHighRiskCount = Num 1,
                   riskScore = Num 10 \<rparr>
       = computeRiskScore (Num 3) (Num 2) (Num 1)"
proof -
  let ?a = "Inr \<lparr> vulnerabilities = Some [1, 2], advisories = Some [''high'', ''low''] \<rparr>"
  let ?t = "Inr (''a.com'' @ [CHR 0x0A] @ ''b.com'' @ [CHR 0x0A] @ ''a.com'' @ [CHR 0x0A])"
  let ?r = "\<lparr> vulnerabilityCount = Num 3, c2Count = Num 2, githubHighRiskCount = Num 1,
                riskScore = Num 10 \<rparr>"
  have h: "(3::nat) + 2 * 2 + 1 * 3 \<le> 2 ^ 53" by simp
  note t = riskScore_formula_exact [of 3 2 1 ?a ?t ?r]
  from t h have f: "computeRiskScore (Num 3) (Num 2) (Num 1) = Num (3 + 2 * 2 + 1 * 3)"
    by blast
  have s: "scanScore ?a ?t = Inr ?r"
    by (simp add: scanScore_def computeRiskScore_def Let_def fromSet_def splitOn_def trim_def
          isWhiteSpace_def toDouble_small)
  from t s have g: "riskScore ?r = computeRiskScore (vulnerabilityCount ?r) (c2Count ?r)
                                      (githubHighRiskCount ?r)"
    by blast
  then have g': "riskScore ?r = computeRiskScore (Num 3) (Num 2) (Num 1)" by simp
  from h f s g' show ?thesis by (intro conjI)
qed

section \<open>Properties of the sampler\<close>

lemma roundHalfEven_le:
  assumes "y \<le> of_int n"
  shows "roundHalfEven y \<le> n"
proof -
  have f: "\<lfloor>y\<rfloor> \<le> n" using assms by (simp add: floor_le_iff)
  show ?thesis
  proof (cases "y - of_int \<lfloor>y\<rfloor> < 1 / 2")
    case True
    then show ?thesis using f by (simp add: roundHalfEven_def Let_def)
  next
    case False
    then have "of_int \<lfloor>y\<rfloor> < y" by linarith
    then have "of_int \<lfloor>y\<rfloor> < (of_int n :: real)" using assms by linarith
    then have "\<lfloor>y\<rfloor> < n" by simp
    then have "\<lfloor>y\<rfloor> + 1 \<le> n" by simp
    then show ?thesis using f by (auto simp add: roundHalfEven_def Let_def)
  qed
qed

lemma doubleExp_cases:
  "(2 ^ 52 \<le> x * 2 ^ doubleExp x \<and> doubleExp x < 1074) \<or> doubleExp x = 1074"
proof (cases "find (\<lambda>k. 2 ^ 52 \<le> x * 2 ^ k) [0 ..< 1074]")
  case None
  then show ?thesis by (simp add: doubleExp_def)
next
  case (Some k)
  then have "2 ^ 52 \<le> x * 2 ^ k \<and> k < 1074"
    by (auto simp add: find_Some_iff)
  then show ?thesis using Some by (simp add: doubleExp_def)
qed

lemma roundDouble_le:
  assumes x: "x \<le> real m / 2 ^ e" and m: "m < 2 ^ 53" and e: "e \<le> 1074"
  shows "roundDouble x \<le> real m / 2 ^ e"
proof (cases "x \<le> 0")
  case True
  then show ?thesis by (simp add: roundDouble_def)
next
  case False
  let ?k = "doubleExp x"
  have ek: "e \<le> ?k"
  proof (rule ccontr)
    assume "\<not> e \<le> ?k"
    then have lt: "?k < e" by simp
    with e have "?k \<noteq> 1074" by simp
    with doubleExp_cases[of x] have b: "2 ^ 52 \<le> x * 2 ^ ?k" by blast
    have "x * 2 ^ ?k \<le> real m / 2 ^ e * 2 ^ ?k" by (rule mult_right_mono[OF x]) simp
    also have "\<dots> = real m / 2 ^ (e - ?k)"
    proof -
      have pe: "(2::real) ^ e = 2 ^ (e - ?k) * 2 ^ ?k"
        using lt by (simp flip: power_add)
      show ?thesis by (simp add: pe)
    qed
    finally have "2 ^ 52 \<le> real m / 2 ^ (e - ?k)" using b by linarith
    then have c: "2 ^ 52 * 2 ^ (e - ?k) \<le> real m" by (simp add: pos_le_divide_eq)
    have "(2::real) ^ 1 \<le> 2 ^ (e - ?k)"
      by (rule power_increasing) (use lt in simp_all)
    then have "(2::real) \<le> 2 ^ (e - ?k)" by simp
    then have "(2::real) ^ 52 * 2 \<le> 2 ^ 52 * 2 ^ (e - ?k)"
      by (rule mult_left_mono) simp
    with c have "(2::real) ^ 52 * 2 \<le> real m" by linarith
    then have "real ((2::nat) ^ 53) \<le> real m" by simp
    then have "(2::nat) ^ 53 \<le> m" by (simp only: of_nat_le_iff)
    with m show False by simp
  qed
  have pk: "(2::real) ^ ?k = 2 ^ (?k - e) * 2 ^ e"
    using ek by (simp flip: power_add)
  have n: "real m / 2 ^ e * 2 ^ ?k = of_int (int (m * 2 ^ (?k - e)))"
    by (simp add: pk)
  have "x * 2 ^ ?k \<le> real m / 2 ^ e * 2 ^ ?k" by (rule mult_right_mono[OF x]) simp
  then have "x * 2 ^ ?k \<le> of_int (int (m * 2 ^ (?k - e)))" by (simp only: n)
  then have "roundHalfEven (x * 2 ^ ?k) \<le> int (m * 2 ^ (?k - e))" by (rule roundHalfEven_le)
  then have "(of_int (roundHalfEven (x * 2 ^ ?k)) :: real) \<le> of_int (int (m * 2 ^ (?k - e)))"
    by (simp only: of_int_le_iff)
  then have "of_int (roundHalfEven (x * 2 ^ ?k)) \<le> real m / 2 ^ e * 2 ^ ?k"
    by (simp only: n)
  then have "of_int (roundHalfEven (x * 2 ^ ?k)) / 2 ^ ?k \<le> real m / 2 ^ e"
    by (simp add: pos_divide_le_eq)
  then show ?thesis using False by (simp add: roundDouble_def)
qed

lemma unat_le_max32: "unat (s :: 32 word) \<le> 4294967295"
proof -
  have "unat s < 2 ^ LENGTH(32)" by (rule unsigned_less)
  then show ?thesis by simp
qed

lemma quotient_le_one: "u \<le> (4294967295::nat) \<Longrightarrow> real u / 4294967295 \<le> real 1 / 2 ^ 0"
  by simp

lemma rngValue_le_one: "rngValue s \<le> 1"
proof -
  have "roundDouble (real (unat s) / 4294967295) \<le> real 1 / 2 ^ 0"
    by (rule roundDouble_le[OF quotient_le_one[OF unat_le_max32]]) simp_all
  then show ?thesis by (simp add: rngValue_def)
qed

lemma index_le_Suc:
  assumes "i + 1 < 2 ^ 53"
  shows "nat \<lfloor>roundDouble (rngValue s * real (i + 1))\<rfloor> \<le> i + 1"
proof -
  have "rngValue s * real (i + 1) \<le> 1 * real (i + 1)"
    by (rule mult_right_mono[OF rngValue_le_one]) simp
  then have "rngValue s * real (i + 1) \<le> real (i + 1) / 2 ^ 0" by simp
  then have "roundDouble (rngValue s * real (i + 1)) \<le> real (i + 1) / 2 ^ 0"
    using assms by (rule roundDouble_le) simp
  then have "roundDouble (rngValue s * real (i + 1)) \<le> of_int (int (i + 1))" by simp
  then have "\<lfloor>roundDouble (rngValue s * real (i + 1))\<rfloor> \<le> int (i + 1)"
    by (simp only: floor_le_iff)
  then show ?thesis by linarith
qed

lemma first_call: "xorshift seed = 2236445728"
  by (simp add: xorshift_def seed_def Let_def)

lemma first_rngValue: "rngValue (xorshift seed) \<le> 3 / 4"
proof -
  have "real (2236445728::nat) / 4294967295 \<le> real 3 / 2 ^ 2" by simp
  then have "roundDouble (real (2236445728::nat) / 4294967295) \<le> real 3 / 2 ^ 2"
    by (rule roundDouble_le) simp_all
  moreover have "unat (2236445728 :: 32 word) = 2236445728" by simp
  ultimately show ?thesis by (simp add: rngValue_def first_call)
qed

lemma first_index_le:
  assumes "0 < n" and "7 * n < 2 ^ 53"
  shows "nat \<lfloor>roundDouble (rngValue (xorshift seed) * real n)\<rfloor> \<le> n - 1"
proof -
  have "rngValue (xorshift seed) * real n \<le> 3 / 4 * real n"
    by (rule mult_right_mono[OF first_rngValue]) simp
  also have "\<dots> \<le> real (7 * n) / 2 ^ 3" by simp
  finally have "rngValue (xorshift seed) * real n \<le> real (7 * n) / 2 ^ 3" .
  then have "roundDouble (rngValue (xorshift seed) * real n) \<le> real (7 * n) / 2 ^ 3"
    using assms(2) by (rule roundDouble_le) simp
  moreover have "real (7 * n) / 2 ^ 3 < real n" using assms(1) by simp
  ultimately have "roundDouble (rngValue (xorshift seed) * real n) < of_int (int n)" by simp
  then have "\<lfloor>roundDouble (rngValue (xorshift seed) * real n)\<rfloor> < int n"
    by (simp only: floor_less_iff)
  then show ?thesis using assms(1) by linarith
qed

lemma swap_in_range:
  "i < length a \<Longrightarrow> j < length a \<Longrightarrow> swap a i j = a[i := a ! j, j := a ! i]"
  by (simp add: swap_def jsGet_def jsSet_def Let_def)

lemma mset_swap_in_range:
  "i < length a \<Longrightarrow> j < length a \<Longrightarrow> mset (swap a i j) = mset a"
  by (simp add: swap_in_range mset_swap)

lemma length_swap_in_range:
  "i < length a \<Longrightarrow> j < length a \<Longrightarrow> length (swap a i j) = length a"
  by (simp add: swap_in_range)

lemma shuffleLoop_below:
  "Suc i < length a \<Longrightarrow> length a < 2 ^ 32 \<Longrightarrow>
     mset (shuffleLoop i s a) = mset a \<and> length (shuffleLoop i s a) = length a"
proof (induction i arbitrary: s a)
  case 0
  then show ?case by simp
next
  case (Suc i)
  let ?s = "xorshift s"
  let ?j = "nat \<lfloor>roundDouble (rngValue ?s * real (Suc i + 1))\<rfloor>"
  let ?a = "swap a (Suc i) ?j"
  have "(2::nat) ^ 32 \<le> 2 ^ 53" by (rule power_increasing) simp_all
  then have b: "Suc i + 1 < 2 ^ 53" using Suc.prems by linarith
  have j: "?j < length a" using index_le_Suc[OF b, of ?s] Suc.prems by simp
  have i: "Suc i < length a" using Suc.prems by simp
  have len: "length ?a = length a" using i j by (rule length_swap_in_range)
  have ms: "mset ?a = mset a" using i j by (rule mset_swap_in_range)
  have l1: "Suc i < length ?a" using len i by simp
  have l2: "length ?a < 2 ^ 32" using len Suc.prems by simp
  from Suc.IH[OF l1 l2, of ?s]
  have "mset (shuffleLoop i ?s ?a) = mset a \<and> length (shuffleLoop i ?s ?a) = length a"
    by (simp only: len ms)
  moreover have "shuffleLoop (Suc i) s a = shuffleLoop i ?s ?a"
    by (simp add: Let_def)
  ultimately show ?case by (simp only:)
qed

lemma shuffle_top:
  assumes "length a < 2 ^ 32"
  shows "mset (shuffleLoop (length a - 1) seed a) = mset a
         \<and> length (shuffleLoop (length a - 1) seed a) = length a"
proof (cases "length a - 1")
  case 0
  then show ?thesis by simp
next
  case (Suc i)
  let ?s = "xorshift seed"
  let ?j = "nat \<lfloor>roundDouble (rngValue ?s * real (Suc i + 1))\<rfloor>"
  let ?a = "swap a (Suc i) ?j"
  have i: "Suc i < length a" using Suc by simp
  have n: "Suc i + 1 = length a" using Suc by simp
  have "(8::nat) * 2 ^ 32 \<le> 2 ^ 53" by simp
  then have b: "7 * length a < 2 ^ 53" using assms by linarith
  have p: "0 < length a" using i by (cases a) simp_all
  have "nat \<lfloor>roundDouble (rngValue ?s * real (length a))\<rfloor> \<le> length a - 1"
    using p b by (rule first_index_le)
  then have "?j \<le> length a - 1" by (simp only: n)
  then have j: "?j < length a" using p by linarith
  have len: "length ?a = length a" using i j by (rule length_swap_in_range)
  have ms: "mset ?a = mset a" using i j by (rule mset_swap_in_range)
  have l1: "Suc i < length ?a" using len Suc by simp
  have l2: "length ?a < 2 ^ 32" using len assms by simp
  from shuffleLoop_below[OF l1 l2, of ?s]
  have "mset (shuffleLoop i ?s ?a) = mset a \<and> length (shuffleLoop i ?s ?a) = length a"
    by (simp only: len ms)
  moreover have "shuffleLoop (length a - 1) seed a = shuffleLoop i ?s ?a"
    using Suc by (simp add: Let_def)
  ultimately show ?thesis by (simp only:)
qed

text \<open>
  C8. For an array of names (a JavaScript array holds fewer than \<open>2 ^ 32\<close> elements) and a
  sample size of at least their number, the sampler's output is a permutation of the whole
  input (the same names with the same multiplicities, nothing \<open>undefined\<close>), and the empty
  input gives the empty output. Every index computed in doubles is in range: the first call
  of the generator gives at most 3/4, and a later index is at most \<open>i + 1\<close>, which is then
  still inside the array.
\<close>

theorem samplePackages_permutation:
  "(int (length all) \<le> sampleSize \<and> length all < 2 ^ 32 \<longrightarrow>
      mset (samplePackages all sampleSize) = mset (map Some all)
      \<and> length (samplePackages all sampleSize) = length all)
   \<and> samplePackages [] sampleSize = []"
proof -
  have e: "samplePackages [] sampleSize = []"
    by (simp add: samplePackages_def slice0_def)
  have "int (length all) \<le> sampleSize \<and> length all < 2 ^ 32 \<longrightarrow>
      mset (samplePackages all sampleSize) = mset (map Some all)
      \<and> length (samplePackages all sampleSize) = length all"
  proof
    assume h: "int (length all) \<le> sampleSize \<and> length all < 2 ^ 32"
    then have "length (map Some all) < 2 ^ 32" by simp
    note t = shuffle_top[OF this]
    have "samplePackages all sampleSize = shuffleLoop (length all - 1) seed (map Some all)"
      using h t by (auto simp add: samplePackages_def slice0_def)
    with t show "mset (samplePackages all sampleSize) = mset (map Some all)
      \<and> length (samplePackages all sampleSize) = length all"
      by simp
  qed
  with e show ?thesis by simp
qed

theorem samplePackages_permutation_witness:
  "int (length [''react'', ''lodash'', ''express'']) \<le> 1000
   \<and> length [''react'', ''lodash'', ''express''] < 2 ^ 32
   \<and> mset (samplePackages [''react'', ''lodash'', ''express''] 1000)
       = mset (map Some [''react'', ''lodash'', ''express''])
   \<and> length (samplePackages [''react'', ''lodash'', ''express''] 1000)
       = length [''react'', ''lodash'', ''express'']"
proof -
  have h: "int (length [''react'', ''lodash'', ''express'']) \<le> 1000
           \<and> length [''react'', ''lodash'', ''express''] < 2 ^ 32" by simp
  from samplePackages_permutation [of "[''react'', ''lodash'', ''express'']" 1000] h
  show ?thesis by blast
qed

text \<open>
  The doubles of some calls, bit for bit: the shuffle of three names, and the index at the
  state 2630247225 with \<open>i = 196610\<close>, where the exact quotient and product would give 120405.
\<close>

lemma doubleExp_eq:
  assumes lo: "2 ^ 52 \<le> x * 2 ^ k" and hi: "x * 2 ^ k < 2 ^ 53" and k: "k < 1074"
  shows "doubleExp x = k"
proof -
  have below: "\<not> 2 ^ 52 \<le> x * 2 ^ j" if "j < k" for j
  proof -
    have pk: "(2::real) ^ k = 2 ^ (k - j) * 2 ^ j" using that by (simp flip: power_add)
    have "(2::real) ^ 1 \<le> 2 ^ (k - j)" by (rule power_increasing) (use that in simp_all)
    then have two: "(2::real) \<le> 2 ^ (k - j)" by simp
    have pos: "0 \<le> x * 2 ^ j"
    proof (cases "0 \<le> x")
      case True
      then show ?thesis by simp
    next
      case False
      then have "x < 0" by simp
      then have "x * 2 ^ k < 0" by (rule mult_neg_pos) simp
      with lo show ?thesis by simp
    qed
    have "x * 2 ^ j * 2 \<le> x * 2 ^ j * 2 ^ (k - j)" using two pos by (rule mult_left_mono)
    also have "\<dots> = x * 2 ^ k" by (simp add: pk)
    finally have "x * 2 ^ j * 2 < 2 ^ 53" using hi by linarith
    then show ?thesis by simp
  qed
  have "find (\<lambda>k. 2 ^ 52 \<le> x * 2 ^ k) [0 ..< 1074] = Some k"
    unfolding find_Some_iff
  proof (intro exI[of _ k] conjI allI impI)
    show "k < length [0 ..< 1074]" using k by simp
    show "2 ^ 52 \<le> x * 2 ^ ([0 ..< 1074] ! k)" using k lo by simp
    show "k = [0 ..< 1074] ! k" using k by simp
    fix j assume "j < k"
    then show "\<not> 2 ^ 52 \<le> x * 2 ^ ([0 ..< 1074] ! j)" using k below by simp
  qed
  then show ?thesis by (simp add: doubleExp_def)
qed

lemma roundDouble_eq:
  assumes "2 ^ 52 \<le> x * 2 ^ k" and "x * 2 ^ k < 2 ^ 53" and "k < 1074"
    and "roundHalfEven (x * 2 ^ k) = m"
  shows "roundDouble x = of_int m / 2 ^ k"
proof -
  have e: "doubleExp x = k" using assms(1-3) by (rule doubleExp_eq)
  have "\<not> x \<le> 0"
  proof
    assume "x \<le> 0"
    then have "x * 2 ^ k \<le> 0" by (simp add: mult_le_0_iff)
    with assms(1) show False by simp
  qed
  then show ?thesis by (simp add: roundDouble_def e assms(4))
qed

lemma first_rngValue_eq: "rngValue 2236445728 = 4690166632458671 / 2 ^ 53"
proof -
  have u: "real (unat (2236445728 :: 32 word)) = 2236445728" by simp
  have r: "roundDouble (2236445728 / 4294967295) = of_int 4690166632458671 / 2 ^ 53"
    by (rule roundDouble_eq) (simp_all add: roundHalfEven_def Let_def)
  have "rngValue 2236445728 = roundDouble (2236445728 / 4294967295)"
    by (simp only: rngValue_def u)
  also have "\<dots> = 4690166632458671 / 2 ^ 53" using r by simp
  finally show ?thesis .
qed

lemma first_index: "nat \<lfloor>roundDouble (rngValue 2236445728 * real (Suc (Suc 0) + 1))\<rfloor> = 1"
proof -
  have r: "roundDouble (4690166632458671 / 2 ^ 53 * 3) = of_int 7035249948688006 / 2 ^ 52"
    by (rule roundDouble_eq) (simp_all add: roundHalfEven_def Let_def)
  have a: "rngValue 2236445728 * real (Suc (Suc 0) + 1) = 4690166632458671 / 2 ^ 53 * 3"
    by (simp add: first_rngValue_eq)
  have "\<lfloor>(of_int 7035249948688006 :: real) / 2 ^ 52\<rfloor> = 1" by simp
  then show ?thesis by (simp only: a r)
qed

lemma second_call: "xorshift 2236445728 = 1390762308"
  by (simp add: xorshift_def Let_def)

lemma second_rngValue_eq: "rngValue 1390762308 = 5833279912851798 / 2 ^ 54"
proof -
  have u: "real (unat (1390762308 :: 32 word)) = 1390762308" by simp
  have r: "roundDouble (1390762308 / 4294967295) = of_int 5833279912851798 / 2 ^ 54"
    by (rule roundDouble_eq) (simp_all add: roundHalfEven_def Let_def)
  have "rngValue 1390762308 = roundDouble (1390762308 / 4294967295)"
    by (simp only: rngValue_def u)
  also have "\<dots> = 5833279912851798 / 2 ^ 54" using r by simp
  finally show ?thesis .
qed

lemma second_index: "nat \<lfloor>roundDouble (rngValue 1390762308 * real (Suc 0 + 1))\<rfloor> = 0"
proof -
  have r: "roundDouble (5833279912851798 / 2 ^ 54 * 2) = of_int 5833279912851798 / 2 ^ 53"
    by (rule roundDouble_eq) (simp_all add: roundHalfEven_def Let_def)
  have a: "rngValue 1390762308 * real (Suc 0 + 1) = 5833279912851798 / 2 ^ 54 * 2"
    by (simp add: second_rngValue_eq)
  have "\<lfloor>(of_int 5833279912851798 :: real) / 2 ^ 53\<rfloor> = 0" by simp
  then show ?thesis by (simp only: a r)
qed

lemma sample_example:
  "samplePackages [''react'', ''lodash'', ''express''] 1000
     = [Some ''express'', Some ''react'', Some ''lodash'']"
proof -
  let ?a = "map Some [''react'', ''lodash'', ''express'']"
  have l: "length [''react'', ''lodash'', ''express''] - 1 = Suc (Suc 0)" by simp
  have "shuffleLoop (Suc (Suc 0)) seed ?a
        = shuffleLoop (Suc 0) 2236445728 (swap ?a (Suc (Suc 0)) 1)"
    by (simp only: shuffleLoop.simps Let_def first_call first_index)
  also have "\<dots> = shuffleLoop 0 1390762308 (swap (swap ?a (Suc (Suc 0)) 1) (Suc 0) 0)"
    by (simp only: shuffleLoop.simps Let_def second_call second_index)
  also have "\<dots> = [Some ''express'', Some ''react'', Some ''lodash'']"
    by (simp add: swap_def jsGet_def jsSet_def)
  finally show ?thesis
    by (simp only: samplePackages_def l) (simp add: slice0_def)
qed

lemma far_rngValue_eq: "rngValue 2630247225 = 5516028229687500 / 2 ^ 53"
proof -
  have u: "real (unat (2630247225 :: 32 word)) = 2630247225" by simp
  have r: "roundDouble (2630247225 / 4294967295) = of_int 5516028229687500 / 2 ^ 53"
    by (rule roundDouble_eq) (simp_all add: roundHalfEven_def Let_def)
  have "rngValue 2630247225 = roundDouble (2630247225 / 4294967295)"
    by (simp only: rngValue_def u)
  also have "\<dots> = 5516028229687500 / 2 ^ 53" using r by simp
  finally show ?thesis .
qed

lemma far_index: "nat \<lfloor>roundDouble (rngValue 2630247225 * real (196610 + 1))\<rfloor> = 120404"
proof -
  have r: "roundDouble (5516028229687500 / 2 ^ 53 * 196611) = of_int 8274168596398079 / 2 ^ 36"
    by (rule roundDouble_eq) (simp_all add: roundHalfEven_def Let_def)
  have a: "rngValue 2630247225 * real (196610 + 1) = 5516028229687500 / 2 ^ 53 * 196611"
    by (simp add: far_rngValue_eq)
  have "\<lfloor>(of_int 8274168596398079 :: real) / 2 ^ 36\<rfloor> = 120404" by simp
  then show ?thesis by (simp only: a r)
qed

section \<open>Properties of the domain extraction\<close>



















section \<open>Properties of the sandbox executor\<close>

lemma side_ne_json: "ext \<noteq> [] \<Longrightarrow> last ext \<noteq> CHR ''n'' \<Longrightarrow> b' @ ext \<noteq> b @ ''.json''"
proof
  assume e: "ext \<noteq> []" and l: "last ext \<noteq> CHR ''n''" and eq: "b' @ ext = b @ ''.json''"
  have "last (b' @ ext) = last ext" using e by simp
  moreover have "last (b @ ''.json'') = CHR ''n''" by simp
  ultimately show False using l eq by simp
qed

lemma put_other: "q \<noteq> p \<Longrightarrow> put q c fs p = fs p"
  by (simp add: put_def split: option.splits)

lemma put_keeps: "p \<in> dom fs \<Longrightarrow> p \<in> dom (put q c fs)"
  by (simp add: put_def split: option.splits)

lemma containerWrites_json: "containerWrites base r fs (b @ ''.json'') = fs (b @ ''.json'')"
  by (simp add: containerWrites_def put_other side_ne_json)

lemma containerWrites_keeps: "p \<in> dom fs \<Longrightarrow> p \<in> dom (containerWrites base r fs)"
  by (simp add: containerWrites_def put_keeps)

lemma containerWrites_txt:
  "fs (base @ ''.txt'') = None \<Longrightarrow> txtFile r = None \<Longrightarrow>
     containerWrites base r fs (base @ ''.txt'') = None"
  by (simp add: containerWrites_def put_def split: option.splits)

lemma job_skip:
  "pathJoin outDir (safeName p) @ ''.json'' \<in> dom (files st) \<Longrightarrow>
     job w outDir i p st = st \<lparr> console := console st @ [SkipExisting p] \<rparr>"
  by (simp add: job_def Let_def domIff)

lemma job_artifact: "pathJoin outDir (safeName p) @ ''.json'' \<in> dom (files (job w outDir i p st))"
  by (simp add: job_def Let_def domIff)

lemma job_keeps: "q \<in> dom (files st) \<Longrightarrow> q \<in> dom (files (job w outDir i p st))"
  by (simp add: job_def Let_def containerWrites_keeps)

lemma job_json_kept:
  "files st (b @ ''.json'') = Some bytes \<Longrightarrow> files (job w outDir i p st) (b @ ''.json'') = Some bytes"
  by (auto simp add: job_def Let_def containerWrites_json)

lemma job_calls:
  "pathJoin outDir (safeName q) @ ''.json'' \<in> dom (files st) \<Longrightarrow>
     \<exists>new. dockerCalls (job w outDir i p st) = dockerCalls st @ new \<and> q \<notin> set new"
  by (auto simp add: job_def Let_def domIff)

lemma job_console: "e \<in> set (console st) \<Longrightarrow> e \<in> set (console (job w outDir i p st))"
  by (simp add: job_def Let_def)

lemma runJobs_console:
  "e \<in> set (console st) \<Longrightarrow> e \<in> set (console (runJobs w outDir i ps st))"
  by (induction ps arbitrary: i st) (simp_all add: job_console)

lemma runJobs_keeps: "q \<in> dom (files st) \<Longrightarrow> q \<in> dom (files (runJobs w outDir i ps st))"
  by (induction ps arbitrary: i st) (simp_all add: job_keeps)

lemma runJobs_json_kept:
  "files st (b @ ''.json'') = Some bytes \<Longrightarrow>
     files (runJobs w outDir i ps st) (b @ ''.json'') = Some bytes"
  by (induction ps arbitrary: i st) (simp_all add: job_json_kept)

lemma runJobs_calls:
  "pathJoin outDir (safeName q) @ ''.json'' \<in> dom (files st) \<Longrightarrow>
     \<exists>new. dockerCalls (runJobs w outDir i ps st) = dockerCalls st @ new \<and> q \<notin> set new"
proof (induction ps arbitrary: i st)
  case Nil
  then show ?case by simp
next
  case (Cons p ps)
  from job_calls[OF Cons.prems, of w i p]
  obtain n1 where n1: "dockerCalls (job w outDir i p st) = dockerCalls st @ n1" "q \<notin> set n1"
    by blast
  have "pathJoin outDir (safeName q) @ ''.json'' \<in> dom (files (job w outDir i p st))"
    using Cons.prems by (rule job_keeps)
  from Cons.IH[OF this, of "Suc i"]
  obtain n2 where n2: "dockerCalls (runJobs w outDir (Suc i) ps (job w outDir i p st))
                        = dockerCalls (job w outDir i p st) @ n2" "q \<notin> set n2"
    by blast
  have "dockerCalls (runJobs w outDir i (p # ps) st) = dockerCalls st @ (n1 @ n2)"
    using n1 n2 by simp
  moreover have "q \<notin> set (n1 @ n2)" using n1 n2 by simp
  ultimately show ?case by blast
qed

lemma runJobs_skipped:
  "p \<in> set ps \<Longrightarrow> pathJoin outDir (safeName p) @ ''.json'' \<in> dom (files st) \<Longrightarrow>
     SkipExisting p \<in> set (console (runJobs w outDir i ps st))"
proof (induction ps arbitrary: i st)
  case Nil
  then show ?case by simp
next
  case (Cons a ps)
  have kept: "pathJoin outDir (safeName p) @ ''.json'' \<in> dom (files (job w outDir i a st))"
    using Cons.prems(2) by (rule job_keeps)
  show ?case
  proof (cases "a = p")
    case True
    have "SkipExisting p \<in> set (console (job w outDir i a st))"
      using True Cons.prems(2) by (simp add: job_skip)
    then show ?thesis by (simp add: runJobs_console)
  next
    case False
    then have "p \<in> set ps" using Cons.prems(1) by simp
    from Cons.IH[OF this kept] show ?thesis by simp
  qed
qed

lemma runJobs_artifacts:
  "p \<in> set ps \<Longrightarrow> pathJoin outDir (safeName p) @ ''.json'' \<in> dom (files (runJobs w outDir i ps st))"
proof (induction ps arbitrary: i st)
  case Nil
  then show ?case by simp
next
  case (Cons a ps)
  show ?case
  proof (cases "a = p")
    case True
    then show ?thesis by (simp add: runJobs_keeps job_artifact)
  next
    case False
    then have "p \<in> set ps" using Cons.prems by simp
    from Cons.IH[OF this] show ?thesis by simp
  qed
qed

lemma runJobs_all_skip:
  "\<forall>p \<in> set ps. pathJoin outDir (safeName p) @ ''.json'' \<in> dom (files st) \<Longrightarrow>
     files (runJobs w outDir i ps st) = files st
     \<and> dockerCalls (runJobs w outDir i ps st) = dockerCalls st"
proof (induction ps arbitrary: i st)
  case Nil
  then show ?case by simp
next
  case (Cons a ps)
  have s: "job w outDir i a st = st \<lparr> console := console st @ [SkipExisting a] \<rparr>"
    using Cons.prems by (simp add: job_skip)
  have "\<forall>p \<in> set ps. pathJoin outDir (safeName p) @ ''.json'' \<in> dom (files (job w outDir i a st))"
    using Cons.prems s by simp
  from Cons.IH[OF this, of "Suc i"] s show ?case by simp
qed

lemma job_empty_domains:
  assumes "files st (pathJoin outDir (safeName p) @ ''.json'') = None"
    and "files st (pathJoin outDir (safeName p) @ ''.txt'') = None"
    and "txtFile (docker w i p) = None"
  shows "files (job w outDir i p st) (pathJoin outDir (safeName p) @ ''.json'')
           = Some (stringifyRecord \<lparr> pkg = p, domains = [], timestamp = now w i \<rparr>)"
  using assms by (simp add: job_def Let_def containerWrites_txt)

lemma job_record:
  assumes "files st (pathJoin outDir (safeName p) @ ''.json'') = None"
  shows "files (job w outDir i p st) (pathJoin outDir (safeName p) @ ''.json'')
          = Some (stringifyRecord
                    \<lparr> pkg = p,
                      domains =
                        (case files (job w outDir i p st) (pathJoin outDir (safeName p) @ ''.txt'') of
                           None \<Rightarrow> []
                         | Some text \<Rightarrow> extractDomains text),
                      timestamp = now w i \<rparr>)"
proof -
  have ne: "pathJoin outDir (safeName p) @ ''.txt'' \<noteq> pathJoin outDir (safeName p) @ ''.json''"
    by (rule side_ne_json) simp_all
  show ?thesis using assms ne by (simp add: job_def Let_def)
qed

lemma job_files_launchError:
  "files (job (w \<lparr> docker := \<lambda>k q. (docker w k q) \<lparr> launchError := e \<rparr> \<rparr>) outDir i p st)
     = files (job w outDir i p st)"
  by (simp add: job_def Let_def containerWrites_def)

text \<open>
  C1. If the result artifact \<open><safe>.json\<close> of a package exists when its job is
  dispatched, the job changes no file and starts no isolation runtime: it only logs the skip.
  If the artifact exists when the loop starts over a list containing the package, then after
  the loop the artifact has the same bytes, the package is logged as skipped, and the calls
  of the isolation runtime made by this run do not contain the package.
\<close>

theorem executor_skip_idempotent:
  "(files st (pathJoin outDir (safeName p) @ ''.json'') = Some bytes \<longrightarrow>
      files (job w outDir i p st) = files st
      \<and> dockerCalls (job w outDir i p st) = dockerCalls st
      \<and> console (job w outDir i p st) = console st @ [SkipExisting p])
   \<and> (p \<in> set pkgs \<and> files st (pathJoin outDir (safeName p) @ ''.json'') = Some bytes \<longrightarrow>
      files (runJobs w outDir i pkgs st) (pathJoin outDir (safeName p) @ ''.json'') = Some bytes
      \<and> take (length (dockerCalls st)) (dockerCalls (runJobs w outDir i pkgs st)) = dockerCalls st
      \<and> p \<notin> set (drop (length (dockerCalls st)) (dockerCalls (runJobs w outDir i pkgs st)))
      \<and> SkipExisting p \<in> set (console (runJobs w outDir i pkgs st)))"
proof (intro conjI impI)
  let ?J = "pathJoin outDir (safeName p) @ ''.json''"
  assume f: "files st ?J = Some bytes"
  have d: "?J \<in> dom (files st)" using f by (simp add: domIff)
  have s: "job w outDir i p st = st \<lparr> console := console st @ [SkipExisting p] \<rparr>"
    using d by (rule job_skip)
  show "files (job w outDir i p st) = files st" by (simp add: s)
  show "dockerCalls (job w outDir i p st) = dockerCalls st" by (simp add: s)
  show "console (job w outDir i p st) = console st @ [SkipExisting p]" by (simp add: s)
next
  let ?J = "pathJoin outDir (safeName p) @ ''.json''"
  let ?st = "runJobs w outDir i pkgs st"
  assume h: "p \<in> set pkgs \<and> files st ?J = Some bytes"
  then have m: "p \<in> set pkgs" and f: "files st ?J = Some bytes" by simp_all
  have d: "?J \<in> dom (files st)" using f by (simp add: domIff)
  show "files ?st ?J = Some bytes" using f by (rule runJobs_json_kept)
  obtain new where n: "dockerCalls ?st = dockerCalls st @ new" "p \<notin> set new"
    using runJobs_calls[OF d, of w i pkgs] by blast
  show "take (length (dockerCalls st)) (dockerCalls ?st) = dockerCalls st"
    using n by simp
  show "p \<notin> set (drop (length (dockerCalls st)) (dockerCalls ?st))"
    using n by simp
  show "SkipExisting p \<in> set (console ?st)" using m d by (rule runJobs_skipped)
qed

theorem executor_skip_idempotent_witness:
  "''left-pad'' \<in> set [''left-pad'', ''@babel/core'']
   \<and> files \<lparr> files = [''out/left-pad.json'' \<mapsto> ''{}''], dockerCalls = [], console = [] \<rparr>
        (pathJoin ''out'' (safeName ''left-pad'') @ ''.json'') = Some ''{}''
   \<and> dockerCalls (job
          \<lparr> docker = (\<lambda>i p. \<lparr> launchError = None, startFile = Some ''s'', pcapFile = Some ''p'',
                               endFile = Some ''e'', txtFile = Some ''x.com'' \<rparr>),
            now = (\<lambda>i. ''2025-08-01T00:00:00.000Z'') \<rparr>
          ''out'' 0 ''left-pad''
          \<lparr> files = [''out/left-pad.json'' \<mapsto> ''{}''], dockerCalls = [], console = [] \<rparr>)
        = []
   \<and> files (runJobs
          \<lparr> docker = (\<lambda>i p. \<lparr> launchError = None, startFile = Some ''s'', pcapFile = Some ''p'',
                               endFile = Some ''e'', txtFile = Some ''x.com'' \<rparr>),
            now = (\<lambda>i. ''2025-08-01T00:00:00.000Z'') \<rparr>
          ''out'' 0 [''left-pad'', ''@babel/core'']
          \<lparr> files = [''out/left-pad.json'' \<mapsto> ''{}''], dockerCalls = [], console = [] \<rparr>)
        ''out/left-pad.json'' = Some ''{}''
   \<and> dockerCalls (runJobs
          \<lparr> docker = (\<lambda>i p. \<lparr> launchError = None, startFile = Some ''s'', pcapFile = Some ''p'',
                               endFile = Some ''e'', txtFile = Some ''x.com'' \<rparr>),
            now = (\<lambda>i. ''2025-08-01T00:00:00.000Z'') \<rparr>
          ''out'' 0 [''left-pad'', ''@babel/core'']
          \<lparr> files = [''out/left-pad.json'' \<mapsto> ''{}''], dockerCalls = [], console = [] \<rparr>)
        = [''@babel/core'']"
proof -
  let ?w = "\<lparr> docker = (\<lambda>i p. \<lparr> launchError = None, startFile = Some ''s'', pcapFile = Some ''p'',
                               endFile = Some ''e'', txtFile = Some ''x.com'' \<rparr>),
            now = (\<lambda>i. ''2025-08-01T00:00:00.000Z'') \<rparr>"
  let ?st = "\<lparr> files = [''out/left-pad.json'' \<mapsto> ''{}''], dockerCalls = [], console = [] \<rparr>"
  have h1: "''left-pad'' \<in> set [''left-pad'', ''@babel/core'']" by simp
  have j: "pathJoin ''out'' (safeName ''left-pad'') @ ''.json'' = ''out/left-pad.json''"
    by (simp add: pathJoin_def safeName_def)
  have h2: "files ?st (pathJoin ''out'' (safeName ''left-pad'') @ ''.json'') = Some ''{}''"
    by (simp only: j) simp
  have calls: "dockerCalls (runJobs ?w ''out'' 0 [''left-pad'', ''@babel/core''] ?st) = [''@babel/core'']"
    by (simp add: job_def Let_def pathJoin_def safeName_def)
  note t = executor_skip_idempotent [where p = "''left-pad''" and pkgs = "[''left-pad'', ''@babel/core'']"
      and st = ?st and outDir = "''out''" and bytes = "''{}''" and w = ?w and i = 0]
  from t h2 have "dockerCalls (job ?w ''out'' 0 ''left-pad'' ?st) = dockerCalls ?st"
    by blast
  then have one: "dockerCalls (job ?w ''out'' 0 ''left-pad'' ?st) = []" by simp
  from t h1 h2
  have "files (runJobs ?w ''out'' 0 [''left-pad'', ''@babel/core''] ?st)
          (pathJoin ''out'' (safeName ''left-pad'') @ ''.json'') = Some ''{}''"
    by blast
  then have "files (runJobs ?w ''out'' 0 [''left-pad'', ''@babel/core''] ?st) ''out/left-pad.json''
               = Some ''{}''"
    by (simp only: j)
  with h1 h2 one calls show ?thesis by blast
qed

text \<open>
  C10. After the job of a package its result artifact exists, whatever the isolation runtime
  reported. For a package that was not skipped, the artifact is the record of the package,
  the clock reading and the domains extracted from the capture text present after the
  run, the empty list when the capture text is absent. The files after a job do not depend on
  whether the launch failed: there is no separate artifact for a failure. After the loop
  every listed package has its artifact, so a second loop over the same list, in any world,
  starts the runtime for no package and leaves every file as it is.
\<close>

theorem executor_artifact_unconditional:
  "pathJoin outDir (safeName p) @ ''.json'' \<in> dom (files (job w outDir i p st))
   \<and> (files st (pathJoin outDir (safeName p) @ ''.json'') = None \<longrightarrow>
        files (job w outDir i p st) (pathJoin outDir (safeName p) @ ''.json'')
          = Some (stringifyRecord
                    \<lparr> pkg = p,
                      domains =
                        (case files (job w outDir i p st) (pathJoin outDir (safeName p) @ ''.txt'') of
                           None \<Rightarrow> []
                         | Some text \<Rightarrow> extractDomains text),
                      timestamp = now w i \<rparr>))
   \<and> (files st (pathJoin outDir (safeName p) @ ''.json'') = None
        \<and> files st (pathJoin outDir (safeName p) @ ''.txt'') = None
        \<and> txtFile (docker w i p) = None \<longrightarrow>
        files (job w outDir i p st) (pathJoin outDir (safeName p) @ ''.json'')
          = Some (stringifyRecord \<lparr> pkg = p, domains = [], timestamp = now w i \<rparr>))
   \<and> files (job (w \<lparr> docker := \<lambda>k q. (docker w k q) \<lparr> launchError := e \<rparr> \<rparr>) outDir i p st)
       = files (job w outDir i p st)
   \<and> (p \<in> set pkgs \<longrightarrow>
        pathJoin outDir (safeName p) @ ''.json'' \<in> dom (files (runJobs w outDir i pkgs st)))
   \<and> files (runJobs w' outDir j pkgs (runJobs w outDir i pkgs st))
       = files (runJobs w outDir i pkgs st)
   \<and> dockerCalls (runJobs w' outDir j pkgs (runJobs w outDir i pkgs st))
       = dockerCalls (runJobs w outDir i pkgs st)"
proof -
  let ?J = "pathJoin outDir (safeName p) @ ''.json''"
  have a: "?J \<in> dom (files (job w outDir i p st))" by (rule job_artifact)
  have b: "files st ?J = None \<longrightarrow>
        files (job w outDir i p st) ?J
          = Some (stringifyRecord
                    \<lparr> pkg = p,
                      domains =
                        (case files (job w outDir i p st) (pathJoin outDir (safeName p) @ ''.txt'') of
                           None \<Rightarrow> []
                         | Some text \<Rightarrow> extractDomains text),
                      timestamp = now w i \<rparr>)"
    by (rule impI) (rule job_record)
  have c: "files st ?J = None
        \<and> files st (pathJoin outDir (safeName p) @ ''.txt'') = None
        \<and> txtFile (docker w i p) = None \<longrightarrow>
        files (job w outDir i p st) ?J
          = Some (stringifyRecord \<lparr> pkg = p, domains = [], timestamp = now w i \<rparr>)"
    using job_empty_domains[of st outDir p w i] by blast
  have d: "files (job (w \<lparr> docker := \<lambda>k q. (docker w k q) \<lparr> launchError := e \<rparr> \<rparr>) outDir i p st)
       = files (job w outDir i p st)"
    by (rule job_files_launchError)
  have e: "p \<in> set pkgs \<longrightarrow> ?J \<in> dom (files (runJobs w outDir i pkgs st))"
    using runJobs_artifacts[of p pkgs outDir w i st] by blast
  have all: "\<forall>q \<in> set pkgs. pathJoin outDir (safeName q) @ ''.json''
                 \<in> dom (files (runJobs w outDir i pkgs st))"
    using runJobs_artifacts by blast
  note f = runJobs_all_skip[OF all, of w' j]
  from a b c d e f show ?thesis by blast
qed

theorem executor_artifact_unconditional_witness:
  "files \<lparr> files = Map.empty, dockerCalls = [], console = [] \<rparr>
        (pathJoin ''out'' (safeName ''left-pad'') @ ''.json'') = None
   \<and> files \<lparr> files = Map.empty, dockerCalls = [], console = [] \<rparr>
        (pathJoin ''out'' (safeName ''left-pad'') @ ''.txt'') = None
   \<and> txtFile (docker
          \<lparr> docker = (\<lambda>i p. \<lparr> launchError = Some ''spawn docker ENOENT'', startFile = None,
                               pcapFile = None, endFile = None, txtFile = None \<rparr>),
            now = (\<lambda>i. ''2025-08-01T00:00:00.000Z'') \<rparr> 0 ''left-pad'') = None
   \<and> ''left-pad'' \<in> set [''left-pad'']
   \<and> files (job
          \<lparr> docker = (\<lambda>i p. \<lparr> launchError = Some ''spawn docker ENOENT'', startFile = None,
                               pcapFile = None, endFile = None, txtFile = None \<rparr>),
            now = (\<lambda>i. ''2025-08-01T00:00:00.000Z'') \<rparr>
          ''out'' 0 ''left-pad'' \<lparr> files = Map.empty, dockerCalls = [], console = [] \<rparr>)
        (pathJoin ''out'' (safeName ''left-pad'') @ ''.txt'') = None
   \<and> files (job
          \<lparr> docker = (\<lambda>i p. \<lparr> launchError = Some ''spawn docker ENOENT'', startFile = None,
                               pcapFile = None, endFile = None, txtFile = None \<rparr>),
            now = (\<lambda>i. ''2025-08-01T00:00:00.000Z'') \<rparr>
          ''out'' 0 ''left-pad'' \<lparr> files = Map.empty, dockerCalls = [], console = [] \<rparr>)
        (pathJoin ''out'' (safeName ''left-pad'') @ ''.json'')
       = Some (stringifyRecord \<lparr> pkg = ''left-pad'', domains = [],
                                  timestamp = ''2025-08-01T00:00:00.000Z'' \<rparr>)
   \<and> pathJoin ''out'' (safeName ''left-pad'') @ ''.json''
       \<in> dom (files (runJobs
          \<lparr> docker = (\<lambda>i p. \<lparr> launchError = Some ''spawn docker ENOENT'', startFile = None,
                               pcapFile = None, endFile = None, txtFile = None \<rparr>),
            now = (\<lambda>i. ''2025-08-01T00:00:00.000Z'') \<rparr>
          ''out'' 0 [''left-pad''] \<lparr> files = Map.empty, dockerCalls = [], console = [] \<rparr>))"
proof -
  let ?w = "\<lparr> docker = (\<lambda>i p. \<lparr> launchError = Some ''spawn docker ENOENT'', startFile = None,
                               pcapFile = None, endFile = None, txtFile = None \<rparr>),
            now = (\<lambda>i. ''2025-08-01T00:00:00.000Z'') \<rparr>"
  let ?st = "\<lparr> files = Map.empty, dockerCalls = [], console = [] \<rparr>"
  have h1: "files ?st (pathJoin ''out'' (safeName ''left-pad'') @ ''.json'') = None" by simp
  have h2: "files ?st (pathJoin ''out'' (safeName ''left-pad'') @ ''.txt'') = None" by simp
  have h3: "txtFile (docker ?w 0 ''left-pad'') = None" by simp
  have h4: "''left-pad'' \<in> set [''left-pad'']" by simp
  have n: "now ?w 0 = ''2025-08-01T00:00:00.000Z''" by simp
  note t = executor_artifact_unconditional [of "''out''" "''left-pad''" ?w 0 ?st None "[''left-pad'']" ?w 0]
  from t h1 h2 h3 have c: "files (job ?w ''out'' 0 ''left-pad'' ?st)
        (pathJoin ''out'' (safeName ''left-pad'') @ ''.json'')
       = Some (stringifyRecord \<lparr> pkg = ''left-pad'', domains = [], timestamp = now ?w 0 \<rparr>)"
    by blast
  from t h4 have e: "pathJoin ''out'' (safeName ''left-pad'') @ ''.json''
       \<in> dom (files (runJobs ?w ''out'' 0 [''left-pad''] ?st))"
    by blast
  from t h1 have g: "files (job ?w ''out'' 0 ''left-pad'' ?st)
        (pathJoin ''out'' (safeName ''left-pad'') @ ''.json'')
       = Some (stringifyRecord
                 \<lparr> pkg = ''left-pad'',
                   domains =
                     (case files (job ?w ''out'' 0 ''left-pad'' ?st)
                             (pathJoin ''out'' (safeName ''left-pad'') @ ''.txt'') of
                        None \<Rightarrow> []
                      | Some text \<Rightarrow> extractDomains text),
                   timestamp = now ?w 0 \<rparr>)"
    by blast
  have d: "files (job ?w ''out'' 0 ''left-pad'' ?st)
        (pathJoin ''out'' (safeName ''left-pad'') @ ''.txt'') = None"
    by (simp add: job_def Let_def containerWrites_def put_def pathJoin_def safeName_def)
  from g have c': "files (job ?w ''out'' 0 ''left-pad'' ?st)
        (pathJoin ''out'' (safeName ''left-pad'') @ ''.json'')
       = Some (stringifyRecord \<lparr> pkg = ''left-pad'', domains = [], timestamp = now ?w 0 \<rparr>)"
    by (simp only: d option.case)
  from h1 h2 h3 h4 d c c' e n show ?thesis by (simp only:)
qed

lemma stringify_example:
  "stringifyRecord \<lparr> pkg = ''a'', domains = [''x.com'', ''y.com''], timestamp = ''T'' \<rparr>
     = ''{'' @ [CHR 0x0A]
       @ ''  '' @ [CHR 0x22] @ ''pkg'' @ [CHR 0x22] @ '': '' @ [CHR 0x22] @ ''a'' @ [CHR 0x22] @ '','' @ [CHR 0x0A]
       @ ''  '' @ [CHR 0x22] @ ''domains'' @ [CHR 0x22] @ '': ['' @ [CHR 0x0A]
       @ ''    '' @ [CHR 0x22] @ ''x.com'' @ [CHR 0x22] @ '','' @ [CHR 0x0A]
       @ ''    '' @ [CHR 0x22] @ ''y.com'' @ [CHR 0x22] @ [CHR 0x0A]
       @ ''  ],'' @ [CHR 0x0A]
       @ ''  '' @ [CHR 0x22] @ ''vt'' @ [CHR 0x22] @ '': {},'' @ [CHR 0x0A]
       @ ''  '' @ [CHR 0x22] @ ''timestamp'' @ [CHR 0x22] @ '': '' @ [CHR 0x22] @ ''T'' @ [CHR 0x22] @ [CHR 0x0A]
       @ ''}''"
  by (simp add: stringifyRecord_def quote_def jsonEscape_def)

section \<open>Properties of the queue\<close>

subsection \<open>Promises that settle one at a time\<close>

text \<open>
  Where the schedule lets no second promise settle before the loop continues, the queue
  returns the value of every call \<open>0 .. n - 1\<close> exactly once, and a run with a valid cutoff
  date ends with one ledger entry per name.
\<close>

lemma filter_other_keys:
  assumes "distinct (map fst xs)" and "p \<in> set xs"
  shows "mset (map snd (filter (\<lambda>e. fst e \<noteq> fst p) xs)) + {# snd p #} = mset (map snd xs)"
  using assms
proof (induction xs)
  case Nil
  then show ?case by simp
next
  case (Cons x xs)
  show ?case
  proof (cases "x = p")
    case True
    have "fst p \<notin> fst ` set xs" using Cons.prems True by simp
    then have "\<forall>e \<in> set xs. fst e \<noteq> fst p" by (metis imageI)
    then have "filter (\<lambda>e. fst e \<noteq> fst p) xs = xs" by (simp add: filter_id_conv)
    then have "filter (\<lambda>e. fst e \<noteq> fst p) (x # xs) = xs" using True by simp
    then show ?thesis using True by simp
  next
    case False
    then have p: "p \<in> set xs" using Cons.prems by simp
    then have "fst p \<in> fst ` set xs" by (rule imageI)
    then have n: "fst x \<noteq> fst p" using Cons.prems by auto
    have d: "distinct (map fst xs)" using Cons.prems by simp
    have g: "filter (\<lambda>e. fst e \<noteq> fst p) (x # xs) = x # filter (\<lambda>e. fst e \<noteq> fst p) xs"
      using n by simp
    have "mset (map snd (x # filter (\<lambda>e. fst e \<noteq> fst p) xs)) + {# snd p #}
            = {# snd x #} + (mset (map snd (filter (\<lambda>e. fst e \<noteq> fst p) xs)) + {# snd p #})"
      by simp
    also have "\<dots> = {# snd x #} + mset (map snd xs)"
      by (simp only: Cons.IH[OF d p])
    also have "\<dots> = mset (map snd (x # xs))" by simp
    finally show ?thesis by (simp only: g)
  qed
qed

lemma enqueueNext_inv:
  assumes "idx q \<le> length items"
    and "distinct (map fst (active q))"
    and "\<forall>e \<in> set (active q). fst e < idx q"
    and "mset (results q) + mset (map snd (active q))
           = mset (map (\<lambda>k. wrapped worker k (items ! k)) [0 ..< idx q])"
  shows "idx (enqueueNext items worker q) \<le> length items
         \<and> distinct (map fst (active (enqueueNext items worker q)))
         \<and> (\<forall>e \<in> set (active (enqueueNext items worker q)). fst e < idx (enqueueNext items worker q))
         \<and> mset (results (enqueueNext items worker q)) + mset (map snd (active (enqueueNext items worker q)))
           = mset (map (\<lambda>k. wrapped worker k (items ! k))
                       [0 ..< idx (enqueueNext items worker q)])"
  using assms by (auto simp add: enqueueNext_def Let_def simp del: mset_upt mset_map)

lemma enqueueNext_pending:
  "idx (enqueueNext items worker q) < length items \<Longrightarrow> active (enqueueNext items worker q) \<noteq> []"
  by (auto simp add: enqueueNext_def Let_def split: if_splits)

lemma kickoff_inv:
  "idx ((enqueueNext items worker ^^ m) \<lparr> idx = 0, active = [], results = [] \<rparr>) \<le> length items
   \<and> distinct (map fst (active ((enqueueNext items worker ^^ m) \<lparr> idx = 0, active = [], results = [] \<rparr>)))
   \<and> (\<forall>e \<in> set (active ((enqueueNext items worker ^^ m) \<lparr> idx = 0, active = [], results = [] \<rparr>)).
         fst e < idx ((enqueueNext items worker ^^ m) \<lparr> idx = 0, active = [], results = [] \<rparr>))
   \<and> mset (results ((enqueueNext items worker ^^ m) \<lparr> idx = 0, active = [], results = [] \<rparr>))
       + mset (map snd (active ((enqueueNext items worker ^^ m) \<lparr> idx = 0, active = [], results = [] \<rparr>)))
     = mset (map (\<lambda>k. wrapped worker k (items ! k))
              [0 ..< idx ((enqueueNext items worker ^^ m) \<lparr> idx = 0, active = [], results = [] \<rparr>)])"
proof (induction m)
  case 0
  then show ?case by simp
next
  case (Suc m)
  let ?q = "(enqueueNext items worker ^^ m) \<lparr> idx = 0, active = [], results = [] \<rparr>"
  have a: "idx ?q \<le> length items" using Suc by (rule conjunct1)
  have b: "distinct (map fst (active ?q))" using Suc by blast
  have c: "\<forall>e \<in> set (active ?q). fst e < idx ?q" using Suc by blast
  have d: "mset (results ?q) + mset (map snd (active ?q))
             = mset (map (\<lambda>k. wrapped worker k (items ! k)) [0 ..< idx ?q])"
    using Suc by blast
  have s: "(enqueueNext items worker ^^ Suc m) \<lparr> idx = 0, active = [], results = [] \<rparr>
             = enqueueNext items worker ?q"
    by simp
  show ?case
    unfolding s by (rule enqueueNext_inv[where q = ?q and items = items and worker = worker, OF a b c d])
qed

lemma kickoff_pending:
  "0 < m \<Longrightarrow>
     idx ((enqueueNext items worker ^^ m) q) < length items \<Longrightarrow>
     active ((enqueueNext items worker ^^ m) q) \<noteq> []"
  by (cases m) (auto simp add: enqueueNext_pending)

lemma raceLoop_inv:
  assumes "\<forall>turn k. \<not> snd (sched turn) k"
    and "idx q \<le> length items"
    and "distinct (map fst (active q))"
    and "\<forall>e \<in> set (active q). fst e < idx q"
    and "mset (results q) + mset (map snd (active q))
           = mset (map (\<lambda>k. wrapped worker k (items ! k)) [0 ..< idx q])"
    and "idx q < length items \<longrightarrow> active q \<noteq> []"
  shows "active (raceLoop items worker sched turn q) = []
         \<and> mset (results (raceLoop items worker sched turn q))
           = mset (map (\<lambda>k. wrapped worker k (items ! k)) [0 ..< length items])"
  using assms
proof (induction items worker sched turn q rule: raceLoop.induct)
  case (1 items worker sched turn q)
  note solo = "1.prems"(1)
  show ?case
  proof (cases "active q = []")
    case True
    then have i: "idx q = length items" using "1.prems" by auto
    have r: "raceLoop items worker sched turn q = q"
      using True i by (subst raceLoop.simps) simp
    show ?thesis using True i "1.prems"(5) by (simp add: r)
  next
    case False
    let ?pos = "fst (sched turn) mod length (active q)"
    let ?p = "active q ! ?pos"
    let ?settled = "\<lambda>k. k = fst ?p \<or> snd (sched turn) k"
    let ?rest = "filter (\<lambda>(k, v). \<not> ?settled k) (active q)"
    let ?q1 = "q \<lparr> active := ?rest, results := results q @ [snd ?p] \<rparr>"
    let ?q2 = "enqueueNext items worker ?q1"
    have pos: "?pos < length (active q)" using False by simp
    then have mem: "?p \<in> set (active q)" by (rule nth_mem)
    have step: "raceLoop items worker sched turn q = raceLoop items worker sched (Suc turn) ?q2"
      using False by (subst raceLoop.simps) (simp add: Let_def)
    have rest: "?rest = filter (\<lambda>e. fst e \<noteq> fst ?p) (active q)"
      using solo by (simp add: case_prod_unfold)
    have m': "mset (map snd ?rest) + {# snd ?p #} = mset (map snd (active q))"
      using filter_other_keys[OF "1.prems"(3) mem] by (simp only: rest)
    have a1: "idx ?q1 \<le> length items" using "1.prems"(2) by simp
    have a2: "distinct (map fst (active ?q1))" using "1.prems"(3) by (simp add: distinct_map_filter)
    have a3: "\<forall>e \<in> set (active ?q1). fst e < idx ?q1" using "1.prems"(4) by simp
    have "mset (results ?q1) + mset (map snd (active ?q1))
            = mset (results q) + (mset (map snd ?rest) + {# snd ?p #})"
      by simp
    also have "\<dots> = mset (results q) + mset (map snd (active q))"
      by (simp only: m')
    also have "\<dots> = mset (map (\<lambda>k. wrapped worker k (items ! k)) [0 ..< idx q])"
      by (rule "1.prems"(5))
    finally have a4: "mset (results ?q1) + mset (map snd (active ?q1))
           = mset (map (\<lambda>k. wrapped worker k (items ! k)) [0 ..< idx ?q1])"
      by simp
    note e = enqueueNext_inv[where q = ?q1 and items = items and worker = worker, OF a1 a2 a3 a4]
    have e1: "idx ?q2 \<le> length items" using e by blast
    have e2: "distinct (map fst (active ?q2))" using e by blast
    have e3: "\<forall>e \<in> set (active ?q2). fst e < idx ?q2" using e by blast
    have e4: "mset (results ?q2) + mset (map snd (active ?q2))
           = mset (map (\<lambda>k. wrapped worker k (items ! k)) [0 ..< idx ?q2])" using e by blast
    have p: "idx ?q2 < length items \<longrightarrow> active ?q2 \<noteq> []"
      using enqueueNext_pending by blast
    have c: "idx q < length items \<or> 0 < length (active q)" using False by simp
    have n0: "length (active q) \<noteq> 0" using False by simp
    from "1.IH"[OF c n0 refl refl refl refl solo e1 e2 e3 e4 p]
    show ?thesis by (simp only: step)
  qed
qed

lemma runQueue_one_at_a_time:
  assumes "1 \<le> concurrency" and "\<forall>turn k. \<not> snd (sched turn) k"
  shows "mset (runQueue items worker concurrency sched)
           = mset (map (\<lambda>k. wrapped worker k (items ! k)) [0 ..< length items])"
proof -
  let ?m = "nat (min concurrency (int (length items)))"
  let ?q1 = "(enqueueNext items worker ^^ ?m) \<lparr> idx = 0, active = [], results = [] \<rparr>"
  note k = kickoff_inv[where items = items and worker = worker and m = ?m]
  have p: "idx ?q1 < length items \<longrightarrow> active ?q1 \<noteq> []"
  proof
    assume l: "idx ?q1 < length items"
    then have "0 < length items" by (cases items) simp_all
    then have "0 < ?m" using assms(1) by simp
    then show "active ?q1 \<noteq> []" using l by (rule kickoff_pending)
  qed
  have a: "idx ?q1 \<le> length items" using k by blast
  have b: "distinct (map fst (active ?q1))" using k by blast
  have c: "\<forall>e \<in> set (active ?q1). fst e < idx ?q1" using k by blast
  have d: "mset (results ?q1) + mset (map snd (active ?q1))
             = mset (map (\<lambda>k. wrapped worker k (items ! k)) [0 ..< idx ?q1])"
    using k by blast
  from raceLoop_inv[where q = ?q1 and items = items and worker = worker and sched = sched and turn = 0,
         OF assms(2) a b c d p]
  show ?thesis by (simp add: runQueue_def Let_def del: mset_upt mset_map)
qed

lemma processPackage_pkg: "entryPkg (fst (processPackage reg cutoffDate outDir k p st)) = p"
  by (simp add: processPackage_def Let_def split: sum.splits option.splits prod.splits)

lemma wrapped_processPackage:
  "wrapped (\<lambda>k item. Inr (fst (processPackage reg cutoffDate outDir k item st))) k p
     = fst (processPackage reg cutoffDate outDir k p st)"
  by (simp add: wrapped_def)

lemma mset_partition_ok: "mset (filter ok rs @ filter (\<lambda>r. \<not> ok r) rs) = mset rs"
  by (induction rs) auto

lemma fetchPipeline_one_at_a_time:
  assumes c: "1 \<le> CONCURRENCY" and solo: "\<forall>turn k. \<not> snd (sched turn) k"
  shows "\<exists>success failed.
           fetchPipeline reg (Some cutoff) outDir lines CONCURRENCY sched st = Inr (success, failed)
           \<and> length success + length failed = length lines
           \<and> mset (success @ failed)
               = mset (map (\<lambda>k. fst (processPackage reg (Some cutoff) outDir k (lines ! k) st))
                           [0 ..< length lines])
           \<and> mset (map entryPkg (success @ failed)) = mset lines
           \<and> (\<forall>r \<in> set success. ok r)
           \<and> (\<forall>r \<in> set failed. \<not> ok r)"
proof -
  let ?w = "\<lambda>k item. Inr (fst (processPackage reg (Some cutoff) outDir k item st))"
  let ?rs = "runQueue lines ?w CONCURRENCY sched"
  let ?S = "filter ok ?rs"
  let ?F = "filter (\<lambda>r. \<not> ok r) ?rs"
  have run: "fetchPipeline reg (Some cutoff) outDir lines CONCURRENCY sched st = Inr (?S, ?F)"
    by (simp add: fetchPipeline_def Let_def)
  have rs: "mset ?rs = mset (map (\<lambda>k. fst (processPackage reg (Some cutoff) outDir k (lines ! k) st))
                               [0 ..< length lines])"
    using runQueue_one_at_a_time[OF c solo, of lines ?w] by (simp only: wrapped_processPackage)
  have all: "mset (?S @ ?F) = mset ?rs" by (rule mset_partition_ok)
  have m: "mset (?S @ ?F) = mset (map (\<lambda>k. fst (processPackage reg (Some cutoff) outDir k (lines ! k) st))
                               [0 ..< length lines])"
    using all rs by simp
  have "length (?S @ ?F) = length (map (\<lambda>k. fst (processPackage reg (Some cutoff) outDir k (lines ! k) st))
                               [0 ..< length lines])"
    using m by (rule mset_eq_length)
  then have len: "length ?S + length ?F = length lines"
    by (simp only: length_append length_map length_upt minus_nat.diff_0)
  have "mset (map entryPkg (?S @ ?F)) = image_mset entryPkg (mset (?S @ ?F))"
    by (rule mset_map)
  also have "\<dots> = image_mset entryPkg (mset (map (\<lambda>k. fst (processPackage reg (Some cutoff) outDir k (lines ! k) st))
                               [0 ..< length lines]))"
    by (simp only: m)
  also have "\<dots> = mset (map entryPkg (map (\<lambda>k. fst (processPackage reg (Some cutoff) outDir k (lines ! k) st))
                               [0 ..< length lines]))"
    by (rule mset_map[symmetric])
  also have "\<dots> = mset (map (\<lambda>k. lines ! k) [0 ..< length lines])"
    by (simp only: map_map comp_def processPackage_pkg)
  also have "\<dots> = mset lines" by (simp only: map_nth)
  finally have names: "mset (map entryPkg (?S @ ?F)) = mset lines" .
  have oks: "\<forall>r \<in> set ?S. ok r" by simp
  have noks: "\<forall>r \<in> set ?F. \<not> ok r" by simp
  from run len m names oks noks show ?thesis by blast
qed

subsection \<open>Promises that settle together, and a cutoff that is no date\<close>






section \<open>Properties of the version selection\<close>

lemma sorted_le_last: "sorted xs \<Longrightarrow> x \<in> set xs \<Longrightarrow> x \<le> last xs"
  by (induction xs) auto

lemma last_sort_key_max:
  assumes "xs \<noteq> []"
  shows "last (sort_key f xs) \<in> set xs \<and> (\<forall>x \<in> set xs. f x \<le> f (last (sort_key f xs)))"
proof -
  let ?ys = "sort_key f xs"
  have ne: "?ys \<noteq> []" using assms by (metis length_sort length_0_conv)
  have a: "last ?ys \<in> set xs" using ne last_in_set[of ?ys] by simp
  have s: "sorted (map f ?ys)" by (rule sorted_sort_key)
  have "\<forall>x \<in> set xs. f x \<le> f (last ?ys)"
  proof
    fix x assume "x \<in> set xs"
    then have "f x \<in> set (map f ?ys)" by simp
    with s have "f x \<le> last (map f ?ys)" by (rule sorted_le_last)
    then show "f x \<le> f (last ?ys)" using ne by (simp add: last_map)
  qed
  with a show ?thesis by simp
qed

lemma versionEntries_set:
  "(v, t) \<in> set (versionEntries cutoffDate tm) \<longleftrightarrow>
     (v, Some t) \<in> set tm \<and> v \<noteq> ''created'' \<and> v \<noteq> ''modified''
     \<and> (\<exists>c. cutoffDate = Some c \<and> t \<le> c)"
  by (auto simp add: versionEntries_def split: option.splits if_splits)

lemma selectVersion_Inr:
  assumes "selectVersion cutoffDate meta = Inr v"
  shows "\<exists>t. (v, t) \<in> set (versionEntries cutoffDate (case timeMap meta of None \<Rightarrow> [] | Some tm \<Rightarrow> tm))
            \<and> (\<forall>e \<in> set (versionEntries cutoffDate (case timeMap meta of None \<Rightarrow> [] | Some tm \<Rightarrow> tm)).
                   snd e \<le> t)"
proof -
  let ?es = "versionEntries cutoffDate (case timeMap meta of None \<Rightarrow> [] | Some tm \<Rightarrow> tm)"
  have ne: "?es \<noteq> []" using assms by (auto simp add: selectVersion_def Let_def split: if_splits)
  have v: "v = fst (last (sort_key snd ?es))"
    using assms ne by (simp add: selectVersion_def Let_def)
  note m = last_sort_key_max[OF ne, of snd]
  have "(v, snd (last (sort_key snd ?es))) \<in> set ?es" using m v by simp
  moreover have "\<forall>e \<in> set ?es. snd e \<le> snd (last (sort_key snd ?es))" using m by simp
  ultimately show ?thesis by blast
qed

lemma selectVersion_Inl:
  "selectVersion cutoffDate meta = Inl e \<longleftrightarrow>
     e = ''NO_VERSION_BEFORE_CUTOFF''
     \<and> versionEntries cutoffDate (case timeMap meta of None \<Rightarrow> [] | Some tm \<Rightarrow> tm) = []"
  by (auto simp add: selectVersion_def Let_def)

lemma processPackage_no_version:
  assumes "fetchJSON reg k (''https://registry.npmjs.org/'' @ encodeURIComponent p) = Inr (Some meta)"
    and "selectVersion cutoffDate meta = Inl e"
  shows "fst (processPackage reg cutoffDate outDir k p st) = Failure p e"
  using assms by (simp add: processPackage_def Let_def)

lemma processPackage_success_version:
  assumes "fetchJSON reg k (''https://registry.npmjs.org/'' @ encodeURIComponent p) = Inr (Some meta)"
    and "fst (processPackage reg cutoffDate outDir k p st) = Success p' v d"
  shows "selectVersion cutoffDate meta = Inr v"
  using assms
  by (auto simp add: processPackage_def Let_def split: sum.splits option.splits if_splits prod.splits)

section \<open>Properties of one package\<close>

lemma tryDownload_downloads:
  "tryDownload reg k url dest as = (Inr u, ios) \<Longrightarrow> as \<noteq> [] \<Longrightarrow> Download url dest \<in> set ios"
proof (induction as arbitrary: ios)
  case Nil
  then show ?case by simp
next
  case (Cons a as)
  then show ?case
    by (auto split: option.splits if_splits prod.splits)
qed

lemma processPackage_entry_state:
  "fst (processPackage reg cutoffDate outDir k p st) = fst (processPackage reg cutoffDate outDir k p st')"
  by (simp add: processPackage_def Let_def split: sum.splits option.splits prod.splits)

lemma processPackage_calls_state:
  "drop (length (calls st)) (calls (snd (processPackage reg cutoffDate outDir k p st)))
     = drop (length (calls st')) (calls (snd (processPackage reg cutoffDate outDir k p st')))"
  by (simp add: processPackage_def Let_def split: sum.splits option.splits prod.splits)

lemma processPackage_success_trace:
  assumes "fst (processPackage reg cutoffDate outDir k p st) = Success p' v d"
  shows "\<exists>url ios u.
           tryDownload reg k url (pathJoin d (safeName p @ ''-'' @ v @ ''.tgz''))
             [1 ..< Suc MAX_DL_TRIES] = (Inr u, ios)
           \<and> calls (snd (processPackage reg cutoffDate outDir k p st))
               = calls st @ [FetchMeta (''https://registry.npmjs.org/'' @ encodeURIComponent p), Mkdir d]
                 @ ios @ [Extract (pathJoin d (safeName p @ ''-'' @ v @ ''.tgz'')) d]"
  using assms
  by (auto simp add: processPackage_def Let_def
        split: sum.splits option.splits if_splits prod.splits)

lemma processPackage_success_calls:
  assumes "fst (processPackage reg cutoffDate outDir k p st) = Success p' v d"
  shows "(\<exists>url. Download url (pathJoin d (safeName p @ ''-'' @ v @ ''.tgz''))
              \<in> set (drop (length (calls st)) (calls (snd (processPackage reg cutoffDate outDir k p st)))))
         \<and> Extract (pathJoin d (safeName p @ ''-'' @ v @ ''.tgz'')) d
              \<in> set (drop (length (calls st)) (calls (snd (processPackage reg cutoffDate outDir k p st))))"
proof -
  let ?tgz = "pathJoin d (safeName p @ ''-'' @ v @ ''.tgz'')"
  from processPackage_success_trace[OF assms]
  obtain url ios u where t: "tryDownload reg k url ?tgz [1 ..< Suc MAX_DL_TRIES] = (Inr u, ios)"
    and c: "calls (snd (processPackage reg cutoffDate outDir k p st))
               = calls st @ [FetchMeta (''https://registry.npmjs.org/'' @ encodeURIComponent p), Mkdir d]
                 @ ios @ [Extract ?tgz d]"
    by blast
  have "[1 ..< Suc MAX_DL_TRIES] \<noteq> []" by (simp add: MAX_DL_TRIES_def)
  with t have "Download url ?tgz \<in> set ios" by (rule tryDownload_downloads)
  then show ?thesis by (auto simp add: c)
qed

text \<open>
  C3, as stated, fails: with \<open>out/a\<close> already holding extracted content, the package
  \<open>a\<close> is resolved, downloaded and extracted again.
\<close>

theorem fetch_resume_counterexample:
  "pathJoin ''out'' (safeName ''a'') \<in> extractedDirs \<lparr> extractedDirs = {''out/a''}, calls = [] \<rparr>
   \<and> processPackage
        \<lparr> fetchJSON = (\<lambda>k url. Inr (Some \<lparr> timeMap = Some [(''1.0.0'', Some 10)],
                                            tarballOf = (\<lambda>v. Some ''https://r/t.tgz'') \<rparr>)),
          mkdir = (\<lambda>k d. None),
          downloadFile = (\<lambda>k attempt url dest. None),
          tar = (\<lambda>k t d. None) \<rparr>
        (Some 20) ''out'' 0 ''a'' \<lparr> extractedDirs = {''out/a''}, calls = [] \<rparr>
     = (Success ''a'' ''1.0.0'' ''out/a'',
        \<lparr> extractedDirs = {''out/a''},
          calls = [FetchMeta ''https://registry.npmjs.org/a'',
                   Mkdir ''out/a'',
                   Download ''https://r/t.tgz'' ''out/a/a-1.0.0.tgz'',
                   Extract ''out/a/a-1.0.0.tgz'' ''out/a''] \<rparr>)"
  by (simp add: processPackage_def selectVersion_def versionEntries_def Let_def MAX_DL_TRIES_def
        upt_rec pathJoin_def safeName_def encodeURIComponent_def unreserved_def)

text \<open>
  C3, amended. \<open>processPackage\<close> has no resumption check: the entry it returns and the
  requests it makes are the same from any two states, whether or not the destination
  directory already holds extracted content; and whenever it returns a success, the archive
  was downloaded and extracted in this very call.
\<close>

theorem fetch_no_resume_check:
  "fst (processPackage reg cutoffDate outDir k p st)
     = fst (processPackage reg cutoffDate outDir k p st')
   \<and> drop (length (calls st)) (calls (snd (processPackage reg cutoffDate outDir k p st)))
     = drop (length (calls st')) (calls (snd (processPackage reg cutoffDate outDir k p st')))
   \<and> (fst (processPackage reg cutoffDate outDir k p st) = Success p v d \<longrightarrow>
        (\<exists>url. Download url (pathJoin d (safeName p @ ''-'' @ v @ ''.tgz''))
              \<in> set (drop (length (calls st)) (calls (snd (processPackage reg cutoffDate outDir k p st)))))
        \<and> Extract (pathJoin d (safeName p @ ''-'' @ v @ ''.tgz'')) d
              \<in> set (drop (length (calls st)) (calls (snd (processPackage reg cutoffDate outDir k p st)))))"
  using processPackage_entry_state[of reg cutoffDate outDir k p st st']
        processPackage_calls_state[of st reg cutoffDate outDir k p st']
        processPackage_success_calls[of reg cutoffDate outDir k p st p v d]
  by blast

theorem fetch_no_resume_check_witness:
  "fst (processPackage
        \<lparr> fetchJSON = (\<lambda>k url. Inr (Some \<lparr> timeMap = Some [(''1.0.0'', Some 10)],
                                            tarballOf = (\<lambda>v. Some ''https://r/t.tgz'') \<rparr>)),
          mkdir = (\<lambda>k d. None),
          downloadFile = (\<lambda>k attempt url dest. None),
          tar = (\<lambda>k t d. None) \<rparr>
        (Some 20) ''out'' 0 ''a'' \<lparr> extractedDirs = {''out/a''}, calls = [Sleep 7] \<rparr>)
     = Success ''a'' ''1.0.0'' ''out/a''
   \<and> Extract (pathJoin ''out/a'' (safeName ''a'' @ ''-'' @ ''1.0.0'' @ ''.tgz'')) ''out/a''
       \<in> set (drop (length (calls \<lparr> extractedDirs = {''out/a''}, calls = [Sleep 7] \<rparr>))
             (calls (snd (processPackage
        \<lparr> fetchJSON = (\<lambda>k url. Inr (Some \<lparr> timeMap = Some [(''1.0.0'', Some 10)],
                                            tarballOf = (\<lambda>v. Some ''https://r/t.tgz'') \<rparr>)),
          mkdir = (\<lambda>k d. None),
          downloadFile = (\<lambda>k attempt url dest. None),
          tar = (\<lambda>k t d. None) \<rparr>
        (Some 20) ''out'' 0 ''a'' \<lparr> extractedDirs = {''out/a''}, calls = [Sleep 7] \<rparr>))))"
proof -
  let ?reg = "\<lparr> fetchJSON = (\<lambda>k url. Inr (Some \<lparr> timeMap = Some [(''1.0.0'', Some 10)],
                                            tarballOf = (\<lambda>v. Some ''https://r/t.tgz'') \<rparr>)),
          mkdir = (\<lambda>k d. None),
          downloadFile = (\<lambda>k attempt url dest. None),
          tar = (\<lambda>k t d. None) \<rparr>"
  let ?st = "\<lparr> extractedDirs = {''out/a''}, calls = [Sleep 7] \<rparr>"
  have h: "fst (processPackage ?reg (Some 20) ''out'' 0 ''a'' ?st) = Success ''a'' ''1.0.0'' ''out/a''"
    by (simp add: processPackage_def selectVersion_def versionEntries_def Let_def MAX_DL_TRIES_def
        upt_rec pathJoin_def safeName_def)
  from fetch_no_resume_check [of ?reg "Some 20" "''out''" 0 "''a''" ?st ?st "''1.0.0''" "''out/a''"] h
  show ?thesis by blast
qed

text \<open>
  C4. When a version is selected, it is an entry of the time map other than \<open>created\<close> and
  \<open>modified\<close> whose publish time is at most the cutoff, and no such entry has a later
  publish time; only the times are compared. Whenever some entry qualifies, a version is
  selected. The selection fails with
  \<open>NO_VERSION_BEFORE_CUTOFF\<close> exactly when no entry qualifies, and the package is then
  recorded as a failure with that error; a package recorded as a success carries the selected
  version.
\<close>

theorem selectVersion_latest_before_cutoff:
  "(selectVersion cutoffDate meta = Inr v \<longrightarrow>
      (\<exists>t c. cutoffDate = Some c
         \<and> (v, Some t) \<in> set (case timeMap meta of None \<Rightarrow> [] | Some tm \<Rightarrow> tm)
         \<and> v \<noteq> ''created'' \<and> v \<noteq> ''modified'' \<and> t \<le> c
         \<and> (\<forall>v' t'. (v', Some t') \<in> set (case timeMap meta of None \<Rightarrow> [] | Some tm \<Rightarrow> tm)
                 \<and> v' \<noteq> ''created'' \<and> v' \<noteq> ''modified'' \<and> t' \<le> c \<longrightarrow> t' \<le> t)))
   \<and> ((selectVersion cutoffDate meta = Inl ''NO_VERSION_BEFORE_CUTOFF'') =
        (\<not> (\<exists>v t c. cutoffDate = Some c
              \<and> (v, Some t) \<in> set (case timeMap meta of None \<Rightarrow> [] | Some tm \<Rightarrow> tm)
              \<and> v \<noteq> ''created'' \<and> v \<noteq> ''modified'' \<and> t \<le> c)))
   \<and> ((\<exists>v t c. cutoffDate = Some c
              \<and> (v, Some t) \<in> set (case timeMap meta of None \<Rightarrow> [] | Some tm \<Rightarrow> tm)
              \<and> v \<noteq> ''created'' \<and> v \<noteq> ''modified'' \<and> t \<le> c) \<longrightarrow>
        (\<exists>v. selectVersion cutoffDate meta = Inr v))
   \<and> (fetchJSON reg k (''https://registry.npmjs.org/'' @ encodeURIComponent p) = Inr (Some meta)
        \<and> selectVersion cutoffDate meta = Inl ''NO_VERSION_BEFORE_CUTOFF'' \<longrightarrow>
        fst (processPackage reg cutoffDate outDir k p st) = Failure p ''NO_VERSION_BEFORE_CUTOFF'')
   \<and> (fetchJSON reg k (''https://registry.npmjs.org/'' @ encodeURIComponent p) = Inr (Some meta)
        \<and> fst (processPackage reg cutoffDate outDir k p st) = Success p' v' d \<longrightarrow>
        selectVersion cutoffDate meta = Inr v')"
proof -
  let ?E = "case timeMap meta of None \<Rightarrow> [] | Some tm \<Rightarrow> tm"
  have a: "selectVersion cutoffDate meta = Inr v \<longrightarrow>
      (\<exists>t c. cutoffDate = Some c \<and> (v, Some t) \<in> set ?E
         \<and> v \<noteq> ''created'' \<and> v \<noteq> ''modified'' \<and> t \<le> c
         \<and> (\<forall>v' t'. (v', Some t') \<in> set ?E
                 \<and> v' \<noteq> ''created'' \<and> v' \<noteq> ''modified'' \<and> t' \<le> c \<longrightarrow> t' \<le> t))"
  proof
    assume s: "selectVersion cutoffDate meta = Inr v"
    from selectVersion_Inr[OF s]
    obtain t where m: "(v, t) \<in> set (versionEntries cutoffDate ?E)"
      and mx: "\<forall>e \<in> set (versionEntries cutoffDate ?E). snd e \<le> t"
      by blast
    from m obtain c where c: "cutoffDate = Some c" "(v, Some t) \<in> set ?E"
        "v \<noteq> ''created''" "v \<noteq> ''modified''" "t \<le> c"
      by (auto simp only: versionEntries_set)
    have "\<forall>v' t'. (v', Some t') \<in> set ?E
                 \<and> v' \<noteq> ''created'' \<and> v' \<noteq> ''modified'' \<and> t' \<le> c \<longrightarrow> t' \<le> t"
    proof (intro allI impI)
      fix v' t'
      assume h: "(v', Some t') \<in> set ?E \<and> v' \<noteq> ''created'' \<and> v' \<noteq> ''modified'' \<and> t' \<le> c"
      then have "(v', t') \<in> set (versionEntries cutoffDate ?E)"
        using c(1) by (simp only: versionEntries_set) blast
      with mx show "t' \<le> t" by fastforce
    qed
    with c show "\<exists>t c. cutoffDate = Some c \<and> (v, Some t) \<in> set ?E
         \<and> v \<noteq> ''created'' \<and> v \<noteq> ''modified'' \<and> t \<le> c
         \<and> (\<forall>v' t'. (v', Some t') \<in> set ?E
                 \<and> v' \<noteq> ''created'' \<and> v' \<noteq> ''modified'' \<and> t' \<le> c \<longrightarrow> t' \<le> t)"
      by blast
  qed
  have "(versionEntries cutoffDate ?E = []) =
        (\<not> (\<exists>v t. (v, t) \<in> set (versionEntries cutoffDate ?E)))"
    by (cases "versionEntries cutoffDate ?E") auto
  then have b: "(selectVersion cutoffDate meta = Inl ''NO_VERSION_BEFORE_CUTOFF'') =
        (\<not> (\<exists>v t c. cutoffDate = Some c \<and> (v, Some t) \<in> set ?E
              \<and> v \<noteq> ''created'' \<and> v \<noteq> ''modified'' \<and> t \<le> c))"
    by (simp only: selectVersion_Inl versionEntries_set) blast
  have c: "fetchJSON reg k (''https://registry.npmjs.org/'' @ encodeURIComponent p) = Inr (Some meta)
        \<and> selectVersion cutoffDate meta = Inl ''NO_VERSION_BEFORE_CUTOFF'' \<longrightarrow>
        fst (processPackage reg cutoffDate outDir k p st) = Failure p ''NO_VERSION_BEFORE_CUTOFF''"
    using processPackage_no_version by blast
  have d: "fetchJSON reg k (''https://registry.npmjs.org/'' @ encodeURIComponent p) = Inr (Some meta)
        \<and> fst (processPackage reg cutoffDate outDir k p st) = Success p' v' d \<longrightarrow>
        selectVersion cutoffDate meta = Inr v'"
    using processPackage_success_version by blast
  have sel: "(\<exists>v t c. cutoffDate = Some c \<and> (v, Some t) \<in> set ?E
              \<and> v \<noteq> ''created'' \<and> v \<noteq> ''modified'' \<and> t \<le> c) \<longrightarrow>
        (\<exists>v. selectVersion cutoffDate meta = Inr v)"
  proof
    assume q: "\<exists>v t c. cutoffDate = Some c \<and> (v, Some t) \<in> set ?E
              \<and> v \<noteq> ''created'' \<and> v \<noteq> ''modified'' \<and> t \<le> c"
    show "\<exists>v. selectVersion cutoffDate meta = Inr v"
    proof (cases "selectVersion cutoffDate meta")
      case (Inl e)
      then have "e = ''NO_VERSION_BEFORE_CUTOFF''" by (simp add: selectVersion_Inl)
      with Inl b q show ?thesis by blast
    next
      case (Inr v)
      then show ?thesis by blast
    qed
  qed
  from a b sel c d show ?thesis by (intro conjI)
qed

lemma selection_example:
  "selectVersion (Some 20)
     \<lparr> timeMap = Some [(''created'', Some 1), (''2.0.0'', Some 10), (''1.0.1'', Some 20),
                        (''3.0.0'', Some 30), (''modified'', Some 30)],
       tarballOf = (\<lambda>v. Some ''https://r/t.tgz'') \<rparr> = Inr ''1.0.1''
   \<and> selectVersion (Some 5)
     \<lparr> timeMap = Some [(''created'', Some 1), (''2.0.0'', Some 10), (''1.0.1'', Some 20),
                        (''3.0.0'', Some 30), (''modified'', Some 30)],
       tarballOf = (\<lambda>v. Some ''https://r/t.tgz'') \<rparr> = Inl ''NO_VERSION_BEFORE_CUTOFF''"
  by (simp add: selectVersion_def versionEntries_def)

theorem selectVersion_latest_before_cutoff_witness:
  "selectVersion (Some 20)
     \<lparr> timeMap = Some [(''created'', Some 1), (''2.0.0'', Some 10), (''1.0.1'', Some 20),
                        (''3.0.0'', Some 30), (''modified'', Some 30)],
       tarballOf = (\<lambda>v. Some ''https://r/t.tgz'') \<rparr> = Inr ''1.0.1''
   \<and> (\<exists>t c. Some 20 = Some c
         \<and> (''1.0.1'', Some t) \<in> set [(''created'', Some 1), (''2.0.0'', Some 10), (''1.0.1'', Some 20),
                        (''3.0.0'', Some 30), (''modified'', Some (30::int))]
         \<and> t \<le> (c::int) \<and> 10 \<le> t)
   \<and> selectVersion (Some 5)
     \<lparr> timeMap = Some [(''created'', Some 1), (''2.0.0'', Some 10), (''1.0.1'', Some 20),
                        (''3.0.0'', Some 30), (''modified'', Some 30)],
       tarballOf = (\<lambda>v. Some ''https://r/t.tgz'') \<rparr> = Inl ''NO_VERSION_BEFORE_CUTOFF''
   \<and> fst (processPackage
        \<lparr> fetchJSON = (\<lambda>k url. Inr (Some
             \<lparr> timeMap = Some [(''created'', Some 1), (''2.0.0'', Some 10), (''1.0.1'', Some 20),
                        (''3.0.0'', Some 30), (''modified'', Some 30)],
               tarballOf = (\<lambda>v. Some ''https://r/t.tgz'') \<rparr>)),
          mkdir = (\<lambda>k d. None),
          downloadFile = (\<lambda>k attempt url dest. None),
          tar = (\<lambda>k t d. None) \<rparr>
        (Some 5) ''out'' 0 ''a'' \<lparr> extractedDirs = {}, calls = [] \<rparr>)
       = Failure ''a'' ''NO_VERSION_BEFORE_CUTOFF''
   \<and> fst (processPackage
        \<lparr> fetchJSON = (\<lambda>k url. Inr (Some
             \<lparr> timeMap = Some [(''created'', Some 1), (''2.0.0'', Some 10), (''1.0.1'', Some 20),
                        (''3.0.0'', Some 30), (''modified'', Some 30)],
               tarballOf = (\<lambda>v. Some ''https://r/t.tgz'') \<rparr>)),
          mkdir = (\<lambda>k d. None),
          downloadFile = (\<lambda>k attempt url dest. None),
          tar = (\<lambda>k t d. None) \<rparr>
        (Some 20) ''out'' 0 ''a'' \<lparr> extractedDirs = {}, calls = [] \<rparr>)
       = Success ''a'' ''1.0.1'' ''out/a''
   \<and> (\<exists>v. selectVersion (Some 20)
     \<lparr> timeMap = Some [(''created'', Some 1), (''2.0.0'', Some 10), (''1.0.1'', Some 20),
                        (''3.0.0'', Some 30), (''modified'', Some 30)],
       tarballOf = (\<lambda>v. Some ''https://r/t.tgz'') \<rparr> = Inr v)"
proof -
  let ?meta = "\<lparr> timeMap = Some [(''created'', Some 1), (''2.0.0'', Some 10), (''1.0.1'', Some 20),
                        (''3.0.0'', Some 30), (''modified'', Some 30)],
               tarballOf = (\<lambda>v. Some ''https://r/t.tgz'') \<rparr>"
  let ?reg = "\<lparr> fetchJSON = (\<lambda>k url. Inr (Some ?meta)),
          mkdir = (\<lambda>k d. None),
          downloadFile = (\<lambda>k attempt url dest. None),
          tar = (\<lambda>k t d. None) \<rparr>"
  let ?st = "\<lparr> extractedDirs = {}, calls = [] \<rparr>"
  have ok20: "fst (processPackage ?reg (Some 20) ''out'' 0 ''a'' ?st) = Success ''a'' ''1.0.1'' ''out/a''"
    by (simp add: processPackage_def selectVersion_def versionEntries_def Let_def MAX_DL_TRIES_def
        upt_rec pathJoin_def safeName_def)
  have f20: "fetchJSON ?reg 0 (''https://registry.npmjs.org/'' @ encodeURIComponent ''a'') = Inr (Some ?meta)"
    by simp
  from selectVersion_latest_before_cutoff [where cutoffDate = "Some 20" and meta = ?meta
      and reg = ?reg and k = 0 and p = "''a''" and outDir = "''out''" and st = ?st
      and p' = "''a''" and v' = "''1.0.1''" and d = "''out/a''"] f20 ok20
  have s20: "selectVersion (Some 20) ?meta = Inr ''1.0.1''" by blast
  have s5: "selectVersion (Some 5) ?meta = Inl ''NO_VERSION_BEFORE_CUTOFF''"
    using selection_example by blast
  have f: "fetchJSON ?reg 0 (''https://registry.npmjs.org/'' @ encodeURIComponent ''a'') = Inr (Some ?meta)"
    by simp
  have tm: "(case timeMap ?meta of None \<Rightarrow> [] | Some tm \<Rightarrow> tm)
              = [(''created'', Some 1), (''2.0.0'', Some 10), (''1.0.1'', Some 20),
                        (''3.0.0'', Some 30), (''modified'', Some 30)]"
    by simp
  from selectVersion_latest_before_cutoff [of "Some 20" ?meta "''1.0.1''" ?reg 0 "''a''" "''out''" ?st]
       s20
  have "\<exists>t c. Some (20::int) = Some c
         \<and> (''1.0.1'', Some t) \<in> set (case timeMap ?meta of None \<Rightarrow> [] | Some tm \<Rightarrow> tm)
         \<and> ''1.0.1'' \<noteq> ''created'' \<and> ''1.0.1'' \<noteq> ''modified'' \<and> t \<le> c
         \<and> (\<forall>v' t'. (v', Some t') \<in> set (case timeMap ?meta of None \<Rightarrow> [] | Some tm \<Rightarrow> tm)
                 \<and> v' \<noteq> ''created'' \<and> v' \<noteq> ''modified'' \<and> t' \<le> c \<longrightarrow> t' \<le> t)"
    by blast
  then obtain t c where tc: "Some (20::int) = Some c"
      "(''1.0.1'', Some t) \<in> set (case timeMap ?meta of None \<Rightarrow> [] | Some tm \<Rightarrow> tm)"
      "t \<le> c"
      "\<forall>v' t'. (v', Some t') \<in> set (case timeMap ?meta of None \<Rightarrow> [] | Some tm \<Rightarrow> tm)
                 \<and> v' \<noteq> ''created'' \<and> v' \<noteq> ''modified'' \<and> t' \<le> c \<longrightarrow> t' \<le> t"
    by blast
  have "10 \<le> t" using tc(1) tc(4)[rule_format, of "''2.0.0''" 10] by simp
  with tc have e: "\<exists>t c. Some 20 = Some c
         \<and> (''1.0.1'', Some t) \<in> set [(''created'', Some 1), (''2.0.0'', Some 10), (''1.0.1'', Some 20),
                        (''3.0.0'', Some 30), (''modified'', Some (30::int))]
         \<and> t \<le> (c::int) \<and> 10 \<le> t"
    unfolding tm by blast
  from selectVersion_latest_before_cutoff [of "Some 5" ?meta "''1.0.1''" ?reg 0 "''a''" "''out''" ?st]
       f s5
  have p: "fst (processPackage ?reg (Some 5) ''out'' 0 ''a'' ?st) = Failure ''a'' ''NO_VERSION_BEFORE_CUTOFF''"
    by blast
  have q: "\<exists>v t c. Some (20::int) = Some c
              \<and> (v, Some t) \<in> set (case timeMap ?meta of None \<Rightarrow> [] | Some tm \<Rightarrow> tm)
              \<and> v \<noteq> ''created'' \<and> v \<noteq> ''modified'' \<and> t \<le> c"
  proof (intro exI conjI)
    show "Some (20::int) = Some 20" by simp
    show "(''1.0.1'', Some 20) \<in> set (case timeMap ?meta of None \<Rightarrow> [] | Some tm \<Rightarrow> tm)"
      by simp
    show "''1.0.1'' \<noteq> ''created''" by simp
    show "''1.0.1'' \<noteq> ''modified''" by simp
    show "(20::int) \<le> 20" by simp
  qed
  from selectVersion_latest_before_cutoff [where cutoffDate = "Some 20" and meta = ?meta
      and reg = ?reg and k = 0 and p = "''a''" and outDir = "''out''" and st = ?st
      and p' = "''a''" and v' = "''1.0.1''" and d = "''out/a''" and v = "''1.0.1''"] q
  have ex: "\<exists>v. selectVersion (Some 20) ?meta = Inr v" by blast
  from s20 e s5 p ok20 ex show ?thesis by (intro conjI)
qed

section \<open>Properties of the reputation lookup\<close>

lemma lookupBatch_map:
  "lookupBatch axiosGet ds = map (\<lambda>d. snd (queryVirusTotal axiosGet d)) ds"
  by (simp add: lookupBatch_def finalResult_def comp_def)

lemma queryVirusTotal_entry:
  "snd (queryVirusTotal axiosGet d)
     = (case axiosGet (''https://www.virustotal.com/api/v3/domains/'' @ d) of
          Inr data \<Rightarrow> Reputation d data
        | Inl message \<Rightarrow> QueryError d message)"
  by (simp add: queryVirusTotal_def Let_def)

text \<open>
  C9. The lookup returns one entry per queried domain, in order: the error entry
  \<open>{domain, error}\<close> for a domain whose request fails and the reputation entry for each
  other domain, so no failure removes or changes the entry of another domain. Each query
  starts with the delay of 1000 ms, and the route queries at most 5 domains.
\<close>

theorem lookupBatch_one_entry_per_domain:
  "length (lookupBatch axiosGet ds) = length ds
   \<and> (\<forall>i < length ds.
         lookupBatch axiosGet ds ! i
           = (case axiosGet (''https://www.virustotal.com/api/v3/domains/'' @ ds ! i) of
                Inr data \<Rightarrow> Reputation (ds ! i) data
              | Inl message \<Rightarrow> QueryError (ds ! i) message))
   \<and> fst (queryVirusTotal axiosGet d)
       = [Delay 1000, HttpGet (''https://www.virustotal.com/api/v3/domains/'' @ d)]
   \<and> (scanC2 (Inr stdout) axiosGet = C2Data es \<longrightarrow>
         length es \<le> 5
         \<and> es = lookupBatch axiosGet
                  (take 5 (fromSet (filter (\<lambda>d. d \<noteq> []) (map trim (splitOn stdout (CHR 0x0A)))))))"
proof -
  have a: "length (lookupBatch axiosGet ds) = length ds" by (simp add: lookupBatch_map)
  have b: "\<forall>i < length ds.
         lookupBatch axiosGet ds ! i
           = (case axiosGet (''https://www.virustotal.com/api/v3/domains/'' @ ds ! i) of
                Inr data \<Rightarrow> Reputation (ds ! i) data
              | Inl message \<Rightarrow> QueryError (ds ! i) message)"
    by (simp add: lookupBatch_map queryVirusTotal_entry)
  have c: "fst (queryVirusTotal axiosGet d)
       = [Delay 1000, HttpGet (''https://www.virustotal.com/api/v3/domains/'' @ d)]"
    by (simp add: queryVirusTotal_def Let_def)
  have d: "scanC2 (Inr stdout) axiosGet = C2Data es \<longrightarrow>
         length es \<le> 5
         \<and> es = lookupBatch axiosGet
                  (take 5 (fromSet (filter (\<lambda>d. d \<noteq> []) (map trim (splitOn stdout (CHR 0x0A))))))"
    by (auto simp add: scanC2_def Let_def lookupBatch_map split: if_splits)
  from a b c d show ?thesis by (intro conjI)
qed

lemma batch_example:
  "lookupBatch
     (\<lambda>url. if url = ''https://www.virustotal.com/api/v3/domains/c.com''
             then Inl ''Request failed with status code 429'' else Inr ''{}'')
     [''a.com'', ''b.com'', ''c.com'', ''d.com'', ''e.com'']
   = [Reputation ''a.com'' ''{}'', Reputation ''b.com'' ''{}'',
      QueryError ''c.com'' ''Request failed with status code 429'',
      Reputation ''d.com'' ''{}'', Reputation ''e.com'' ''{}'']"
  by (simp add: lookupBatch_def finalResult_def queryVirusTotal_def Let_def)

lemma scan_example:
  "scanC2 (Inr (''a.com'' @ [CHR 0x0A] @ ''b.com'' @ [CHR 0x0A] @ ''a.com'' @ [CHR 0x0A]))
     (\<lambda>url. Inl ''timeout'')
   = C2Data [QueryError ''a.com'' ''timeout'', QueryError ''b.com'' ''timeout'']"
  by (simp add: scanC2_def Let_def lookupBatch_def finalResult_def queryVirusTotal_def
        fromSet_def splitOn_def trim_def isWhiteSpace_def)

theorem lookupBatch_one_entry_per_domain_witness:
  "(2::nat) < length [''a.com'', ''b.com'', ''c.com'', ''d.com'', ''e.com'']
   \<and> length (lookupBatch
       (\<lambda>url. if url = ''https://www.virustotal.com/api/v3/domains/c.com''
               then Inl ''Request failed with status code 429'' else Inr ''{}'')
       [''a.com'', ''b.com'', ''c.com'', ''d.com'', ''e.com''])
       = length [''a.com'', ''b.com'', ''c.com'', ''d.com'', ''e.com'']
   \<and> lookupBatch
       (\<lambda>url. if url = ''https://www.virustotal.com/api/v3/domains/c.com''
               then Inl ''Request failed with status code 429'' else Inr ''{}'')
       [''a.com'', ''b.com'', ''c.com'', ''d.com'', ''e.com''] ! 2
       = QueryError ''c.com'' ''Request failed with status code 429''
   \<and> scanC2 (Inr (''a.com'' @ [CHR 0x0A] @ ''b.com'' @ [CHR 0x0A] @ ''a.com'' @ [CHR 0x0A]))
        (\<lambda>url. Inl ''timeout'')
       = C2Data [QueryError ''a.com'' ''timeout'', QueryError ''b.com'' ''timeout'']
   \<and> length [QueryError ''a.com'' ''timeout'', QueryError ''b.com'' ''timeout''] \<le> 5"
proof -
  let ?g = "\<lambda>url. if url = ''https://www.virustotal.com/api/v3/domains/c.com''
               then Inl ''Request failed with status code 429'' else Inr ''{}''"
  let ?ds = "[''a.com'', ''b.com'', ''c.com'', ''d.com'', ''e.com'']"
  have h: "(2::nat) < length ?ds" by simp
  note t = lookupBatch_one_entry_per_domain [of ?g ?ds "''c.com''"
      "''a.com'' @ [CHR 0x0A] @ ''b.com'' @ [CHR 0x0A] @ ''a.com'' @ [CHR 0x0A]"
      "[Reputation ''a.com'' ''{}'']"]
  from t have l: "length (lookupBatch ?g ?ds) = length ?ds" by (rule conjunct1)
  from t have "\<forall>i < length ?ds.
         lookupBatch ?g ?ds ! i
           = (case ?g (''https://www.virustotal.com/api/v3/domains/'' @ ?ds ! i) of
                Inr data \<Rightarrow> Reputation (?ds ! i) data
              | Inl message \<Rightarrow> QueryError (?ds ! i) message)"
    by (elim conjE)
  from this[rule_format, OF h]
  have e: "lookupBatch ?g ?ds ! 2 = QueryError ''c.com'' ''Request failed with status code 429''"
    by simp
  note u = lookupBatch_one_entry_per_domain [of "\<lambda>url. Inl ''timeout''" "[]" "[]"
      "''a.com'' @ [CHR 0x0A] @ ''b.com'' @ [CHR 0x0A] @ ''a.com'' @ [CHR 0x0A]"
      "[QueryError ''a.com'' ''timeout'', QueryError ''b.com'' ''timeout'']"]
  from u scan_example
  have f: "length [QueryError ''a.com'' ''timeout'', QueryError ''b.com'' ''timeout''] \<le> 5"
    by blast
  from h l e scan_example f show ?thesis by (intro conjI)
qed

end
